theory Spec2Isabelle
  imports Main "HOL-Library.Word" "HOL-Library.Multiset"
begin

section \<open>Machine integers of the Go sources\<close>

text \<open>
  Go's \<open>uint64\<close> is a 64-bit word compared unsigned. Go's \<open>int\<close> is a 64-bit word in
  two's complement: it is read with \<open>sint\<close> and compared through \<open>sint\<close>.
\<close>

type_synonym uint64 = "64 word"
type_synonym goint = "64 word"

section \<open>pkg/loadtest/client_kvstore.go\<close>

subsection \<open>Constants and the table\<close>

definition KVStoreClientIDLen :: goint where
  "KVStoreClientIDLen = 5"

definition kvstoreMinValueLen :: goint where
  "kvstoreMinValueLen = 1"

definition kvstoreMaxTxsByKeySuffixLen :: "uint64 list" where
  "kvstoreMaxTxsByKeySuffixLen =
     [0, 62, 1891, 37820, 557845, 6471002, 61474519, 491796152, 3381098545,
      20286591270, 107518933731, 508271323092, 2160153123141, 8308281242850,
      29078984349975, 93052749919920]"

subsection \<open>Errors\<close>

text \<open>
  One constructor for each \<open>fmt.Errorf\<close> of the file, carrying the values the message
  is formatted with.
\<close>

datatype error =
    ErrMaxTxsPerEndpoint uint64
  | ErrSuffixLen uint64 goint
  | ErrTooManyTxs uint64
  | ErrTxSizeTooSmall goint goint

subsection \<open>requiredKVStoreSuffixLen\<close>

text \<open>
  The \<open>range\<close> loop over the table: \<open>l\<close> is the index of the entry \<open>maxTxs\<close> at the
  head of the remaining entries. The \<open>-1\<close> that the source returns next to an error is
  dropped by every caller and is not part of the result here.
\<close>

fun suffixLenLoop :: "uint64 \<Rightarrow> goint \<Rightarrow> uint64 list \<Rightarrow> error + goint" where
  "suffixLenLoop maxTxCount l [] = Inl (ErrTooManyTxs maxTxCount)"
| "suffixLenLoop maxTxCount l (maxTxs # rest) =
     (if maxTxCount < maxTxs then
        (if sint (word_of_nat (length kvstoreMaxTxsByKeySuffixLen) :: goint) < sint (l + 1)
         then Inl (ErrSuffixLen maxTxCount (l + 1))
         else Inr (l + 1))
      else suffixLenLoop maxTxCount (l + 1) rest)"

definition requiredKVStoreSuffixLen :: "uint64 \<Rightarrow> error + goint" where
  "requiredKVStoreSuffixLen maxTxCount =
     suffixLenLoop maxTxCount 0 kvstoreMaxTxsByKeySuffixLen"

subsection \<open>Config\<close>

text \<open>
  The declaration of \<open>Config\<close> is in another file of the package; the record has the
  integer fields that \<open>testConfig\<close> of the integration test sets. The method
  \<open>cfg.MaxTxsPerEndpoint()\<close> is defined there too: the functions that call it take
  it as the parameter \<open>MaxTxsPerEndpoint\<close>.
\<close>

record Config =
  Connections :: goint
  Time :: goint
  SendPeriod :: goint
  Rate :: goint
  Size :: goint
  Count :: goint

subsection \<open>ValidateConfig\<close>

text \<open>The returned \<open>error\<close>: \<open>None\<close> is Go's \<open>nil\<close>, the configuration is accepted.\<close>

definition ValidateConfig :: "(Config \<Rightarrow> uint64) \<Rightarrow> Config \<Rightarrow> error option" where
  "ValidateConfig MaxTxsPerEndpoint cfg =
     (let maxTxsPerEndpoint = MaxTxsPerEndpoint cfg in
      if maxTxsPerEndpoint < 1 then Some (ErrMaxTxsPerEndpoint maxTxsPerEndpoint)
      else
        (case requiredKVStoreSuffixLen maxTxsPerEndpoint of
           Inl err \<Rightarrow> Some err
         | Inr minKeySuffixLen \<Rightarrow>
             (let minTxSize = KVStoreClientIDLen + minKeySuffixLen + 1 + kvstoreMinValueLen in
              if sint (Size cfg) < sint minTxSize
              then Some (ErrTxSizeTooSmall (Size cfg) minTxSize)
              else None)))"

subsection \<open>Memory: slices and their backing arrays\<close>

text \<open>
  \<open>GenerateTx\<close> appends to the slice \<open>c.keyPrefix\<close>, and Go's \<open>append\<close> writes into
  the backing array of its first argument when the capacity allows. The model therefore
  keeps the backing arrays in an explicit store. A slice is the address of its backing
  array with a length and a capacity (no slice of this file starts inside an array). The
  world holds the backing arrays, the \<open>KVStoreClient\<close> structs that pointers refer to,
  the next free address and, in the field \<open>rng\<close>, the state outside the memory that
  \<open>randStr\<close> acts on: the random source it draws from, and whatever else it reads or
  writes.
\<close>

type_synonym byte = char

record slice =
  base :: nat
  len :: nat
  cap :: nat

record KVStoreClient =
  keyPrefix :: slice
  keySuffixLen :: goint
  valueLen :: goint

record 'g world =
  arrays :: "nat \<Rightarrow> byte list"
  clients :: "nat \<Rightarrow> KVStoreClient option"
  nxt :: nat
  rng :: 'g

text \<open>The bytes visible through a slice.\<close>

definition readSlice :: "slice \<Rightarrow> 'g world \<Rightarrow> byte list" where
  "readSlice s w = take (len s) (arrays w (base s))"

text \<open>
  The helper \<open>randStr\<close> is defined in another file of the package: it is the
  parameter \<open>randStr\<close>, a function of the requested length and of the state it acts
  on, which returns a string and the state it leaves.
\<close>

definition callRandStr ::
  "(int \<Rightarrow> 'g \<Rightarrow> string \<times> 'g) \<Rightarrow> goint \<Rightarrow> 'g world \<Rightarrow> string \<times> 'g world" where
  "callRandStr randStr n w =
     (let (s, g) = randStr (sint n) (rng w) in (s, w\<lparr>rng := g\<rparr>))"

text \<open>
  The conversion \<open>[]byte(s)\<close> copies the string into a fresh array. The capacity that
  the runtime gives a fresh array is the parameter \<open>capFor\<close>, a function of the
  capacity of the slice that is outgrown (0 for a conversion) and of the length that is
  needed; the capacity is never below that length.
\<close>

definition bytesOfString :: "(nat \<Rightarrow> nat \<Rightarrow> nat) \<Rightarrow> string \<Rightarrow> 'g world \<Rightarrow> slice \<times> 'g world" where
  "bytesOfString capFor str w =
     (let n = length str; c = max n (capFor 0 n); a = nxt w in
      (\<lparr>base = a, len = n, cap = c\<rparr>,
       w\<lparr>arrays := (arrays w)(a := str @ replicate (c - n) (CHR 0x00)), nxt := a + 1\<rparr>))"

text \<open>
  \<open>append(s, t...)\<close>: when the capacity of \<open>s\<close> fits the result, the bytes of \<open>t\<close> are
  written into the backing array of \<open>s\<close> behind its length and the result shares that
  array; otherwise a fresh array receives both.
\<close>

definition append_go :: "(nat \<Rightarrow> nat \<Rightarrow> nat) \<Rightarrow> slice \<Rightarrow> slice \<Rightarrow> 'g world \<Rightarrow> slice \<times> 'g world" where
  "append_go capFor s t w =
     (let xs = readSlice t w; n = len s + length xs in
      if n \<le> cap s then
        (s\<lparr>len := n\<rparr>,
         w\<lparr>arrays := (arrays w)(base s :=
              take (len s) (arrays w (base s)) @ xs @ drop n (arrays w (base s)))\<rparr>)
      else
        (let c = max n (capFor (cap s) n); a = nxt w in
         (\<lparr>base = a, len = n, cap = c\<rparr>,
          w\<lparr>arrays := (arrays w)(a := readSlice s w @ xs @ replicate (c - n) (CHR 0x00)),
            nxt := a + 1\<rparr>)))"

subsection \<open>NewClient\<close>

text \<open>The result is the error or the address of the new \<open>KVStoreClient\<close>. The local
  variables that share a name with a field of the struct carry a prime.\<close>

definition NewClient ::
  "(int \<Rightarrow> 'g \<Rightarrow> string \<times> 'g) \<Rightarrow> (nat \<Rightarrow> nat \<Rightarrow> nat) \<Rightarrow> (Config \<Rightarrow> uint64) \<Rightarrow> Config \<Rightarrow> 'g world
     \<Rightarrow> (error + nat) \<times> 'g world" where
  "NewClient randStr capFor MaxTxsPerEndpoint cfg w =
     (let (s, w1) = callRandStr randStr KVStoreClientIDLen w;
          (keyPrefix', w2) = bytesOfString capFor s w1
      in case requiredKVStoreSuffixLen (MaxTxsPerEndpoint cfg) of
           Inl err \<Rightarrow> (Inl err, w2)
         | Inr keySuffixLen' \<Rightarrow>
             (let keyLen = word_of_nat (len keyPrefix') + keySuffixLen';
                  valueLen' = Size cfg - keyLen - 1;
                  p = nxt w2
              in (Inr p,
                  w2\<lparr>clients := (clients w2)(p \<mapsto>
                        \<lparr>keyPrefix = keyPrefix', keySuffixLen = keySuffixLen',
                         valueLen = valueLen'\<rparr>),
                     nxt := p + 1\<rparr>)))"

subsection \<open>GenerateTx\<close>

text \<open>
  The receiver is a pointer: \<open>None\<close> is the panic of dereferencing an address that holds
  no client. Otherwise the result is the returned slice, the returned error (always
  \<open>nil\<close>) and the world after the call.
\<close>

definition GenerateTx ::
  "(int \<Rightarrow> 'g \<Rightarrow> string \<times> 'g) \<Rightarrow> (nat \<Rightarrow> nat \<Rightarrow> nat) \<Rightarrow> nat \<Rightarrow> 'g world
     \<Rightarrow> ((slice \<times> error option) \<times> 'g world) option" where
  "GenerateTx randStr capFor p w =
     (case clients w p of
        None \<Rightarrow> None
      | Some c \<Rightarrow>
          (let (s1, w1) = callRandStr randStr (keySuffixLen c) w;
               (b1, w2) = bytesOfString capFor s1 w1;
               (k, w3) = append_go capFor (keyPrefix c) b1 w2;
               (s2, w4) = callRandStr randStr (valueLen c) w3;
               (v, w5) = bytesOfString capFor s2 w4;
               (eq, w6) = bytesOfString capFor ''='' w5;
               (ev, w7) = append_go capFor eq v w6;
               (r, w8) = append_go capFor k ev w7
           in Some ((r, None), w8)))"

subsection \<open>The configuration of the integration test\<close>

definition testConfig :: Config where
  "testConfig =
     \<lparr>Connections = 1, Time = 5, SendPeriod = 1, Rate = 100, Size = 100, Count = 50\<rparr>"

subsection \<open>Successive calls of GenerateTx\<close>

text \<open>
  A caller that draws \<open>n\<close> payloads from the client at \<open>p\<close>, one call after the other,
  and reads the bytes of each payload when its call returns.
\<close>

fun GenerateTxs ::
  "(int \<Rightarrow> 'g \<Rightarrow> string \<times> 'g) \<Rightarrow> (nat \<Rightarrow> nat \<Rightarrow> nat) \<Rightarrow> nat \<Rightarrow> nat \<Rightarrow> 'g world
     \<Rightarrow> (byte list list \<times> 'g world) option" where
  "GenerateTxs randStr capFor p 0 w = Some ([], w)"
| "GenerateTxs randStr capFor p (Suc n) w =
     (case GenerateTx randStr capFor p w of
        None \<Rightarrow> None
      | Some ((r, err), w') \<Rightarrow>
          (case GenerateTxs randStr capFor p n w' of
             None \<Rightarrow> None
           | Some (txs, w'') \<Rightarrow> Some (readSlice r w' # txs, w'')))"

subsection \<open>Concrete parameters for the examples\<close>

text \<open>
  A \<open>randStr\<close> that returns the letter a as often as requested and leaves the random
  source alone, a runtime that gives every fresh array eight bytes or what is needed,
  an empty world, and a client whose key prefix has three spare bytes of capacity.
\<close>

definition randStrA :: "int \<Rightarrow> unit \<Rightarrow> string \<times> unit" where
  "randStrA n g = (replicate (nat n) (CHR ''a''), g)"

definition capEight :: "nat \<Rightarrow> nat \<Rightarrow> nat" where
  "capEight c n = 8"

definition emptyWorld :: "unit world" where
  "emptyWorld = \<lparr>arrays = (\<lambda>a. []), clients = (\<lambda>p. None), nxt = 0, rng = ()\<rparr>"










section \<open>pkg/logging: the logger\<close>

text \<open>
  Values of type \<open>interface{}\<close>: strings, integers, booleans, \<open>nil\<close>, and slices of such
  values (a \<open>[]interface{}\<close> stored in an \<open>interface{}\<close>).
\<close>

datatype iface = IString string | IInt int | IBool bool | INil | ISlice "iface list"

text \<open>The run-time panics of the file: a failed type assertion, an index out of range.\<close>

datatype panic = TypeAssertion | IndexOutOfRange

type_synonym fieldmap = "string \<Rightarrow> iface option"

subsection \<open>serializeKVPairs\<close>

text \<open>
  The loop \<open>for i := 0; i < len(kvpairs); i += 2\<close>. The index expression on the left
  of the assignment, with its assertion \<open>.(string)\<close>, is evaluated before the right side.
\<close>

function kvLoop :: "iface list \<Rightarrow> nat \<Rightarrow> fieldmap \<Rightarrow> panic + fieldmap" where
  "kvLoop kvpairs i res =
     (if i < length kvpairs then
        (case kvpairs ! i of
           IString key \<Rightarrow>
             (if i + 1 < length kvpairs
              then kvLoop kvpairs (i + 2) (res(key \<mapsto> kvpairs ! (i + 1)))
              else Inl IndexOutOfRange)
         | _ \<Rightarrow> Inl TypeAssertion)
      else Inr res)"
  by pat_completeness auto
termination
  by (relation "measure (\<lambda>(kvpairs, i, res). length kvpairs - i)") auto

definition serializeKVPairs :: "iface list \<Rightarrow> panic + fieldmap" where
  "serializeKVPairs kvpairs =
     (if length kvpairs mod 2 = 0 then kvLoop kvpairs 0 Map.empty else Inr Map.empty)"

subsection \<open>NewLogrusLogger\<close>

text \<open>
  The logrus entry is represented by its data fields: \<open>logrus.WithField("ctx", ctx)\<close>
  has the one field \<open>ctx\<close>, a new entry has none. The mutex has no content. The call
  \<open>serializeKVPairs(kvpairs)\<close> is written without \<open>...\<close>: the slice \<open>kvpairs\<close> is the
  single element of the variadic argument list. The parameter named \<open>ctx\<close> in the source
  carries a prime here, as the field has the name; the field \<open>fields\<close> carries a prime,
  as the name is taken in Isabelle.
\<close>

record LogrusLogger =
  logger :: fieldmap
  ctx :: string
  fields' :: fieldmap
  pushedFieldSets :: "fieldmap list"

definition NewLogrusLogger :: "string \<Rightarrow> iface list \<Rightarrow> panic + LogrusLogger" where
  "NewLogrusLogger ctx' kvpairs =
     (let logger' = (if length ctx' > 0 then [''ctx'' \<mapsto> IString ctx'] else Map.empty)
      in case serializeKVPairs [ISlice kvpairs] of
           Inl pn \<Rightarrow> Inl pn
         | Inr m \<Rightarrow>
             Inr \<lparr>logger = logger', ctx = ctx', fields' = m, pushedFieldSets = []\<rparr>)"

section \<open>The integration test: parseStats\<close>

text \<open>
  The declaration of \<open>AggregateStats\<close> is in the package under test; the record has
  the fields that the test reads and writes, with the types of the values assigned to
  them. The type of \<open>float64\<close> values is the parameter \<open>'f\<close>, whose \<open>0\<close> is the zero value
  of a fresh struct. \<open>strconv.ParseInt\<close> and \<open>strconv.ParseFloat\<close> belong to Go's
  library: they are the parameters \<open>ParseInt\<close> (string, base, bit size) and
  \<open>ParseFloat\<close> (string, bit size), which return an error of type \<open>'e\<close> or the number.
\<close>

record 'f AggregateStats =
  TotalTxs :: goint
  TotalTimeSeconds :: 'f
  TotalBytes :: "64 word"
  AvgTxRate :: 'f
  AvgDataRate :: 'f

datatype 'e stats_error = ErrTooFewRecords nat | ErrTooFewColumns | ErrParse 'e

text \<open>
  The body of the loop over the records. The loop variable \<open>record\<close> of the source is
  \<open>row\<close> here. The conversion \<open>int(totalTxs)\<close> from \<open>int64\<close> to \<open>int\<close> keeps the word.
\<close>

definition parseRecord ::
  "(string \<Rightarrow> nat \<Rightarrow> nat \<Rightarrow> 'e + 64 word) \<Rightarrow> (string \<Rightarrow> nat \<Rightarrow> 'e + 'f) \<Rightarrow> string list
     \<Rightarrow> 'f AggregateStats \<Rightarrow> 'e stats_error + 'f AggregateStats" where
  "parseRecord ParseInt ParseFloat row stats =
     (if length row > 0 then
        (if length row < 3 then Inl ErrTooFewColumns
         else if row ! 0 = ''total_txs'' then
           (case ParseInt (row ! 1) 10 32 of
              Inl err \<Rightarrow> Inl (ErrParse err)
            | Inr totalTxs \<Rightarrow> Inr (stats\<lparr>TotalTxs := totalTxs\<rparr>))
         else if row ! 0 = ''total_time'' then
           (case ParseFloat (row ! 1) 64 of
              Inl err \<Rightarrow> Inl (ErrParse err)
            | Inr x \<Rightarrow> Inr (stats\<lparr>TotalTimeSeconds := x\<rparr>))
         else if row ! 0 = ''total_bytes'' then
           (case ParseInt (row ! 1) 10 64 of
              Inl err \<Rightarrow> Inl (ErrParse err)
            | Inr x \<Rightarrow> Inr (stats\<lparr>TotalBytes := x\<rparr>))
         else if row ! 0 = ''avg_tx_rate'' then
           (case ParseFloat (row ! 1) 64 of
              Inl err \<Rightarrow> Inl (ErrParse err)
            | Inr x \<Rightarrow> Inr (stats\<lparr>AvgTxRate := x\<rparr>))
         else if row ! 0 = ''avg_data_rate'' then
           (case ParseFloat (row ! 1) 64 of
              Inl err \<Rightarrow> Inl (ErrParse err)
            | Inr x \<Rightarrow> Inr (stats\<lparr>AvgDataRate := x\<rparr>))
         else Inr stats)
      else Inr stats)"

fun parseRecords ::
  "(string \<Rightarrow> nat \<Rightarrow> nat \<Rightarrow> 'e + 64 word) \<Rightarrow> (string \<Rightarrow> nat \<Rightarrow> 'e + 'f) \<Rightarrow> string list list
     \<Rightarrow> 'f AggregateStats \<Rightarrow> 'e stats_error + 'f AggregateStats" where
  "parseRecords ParseInt ParseFloat [] stats = Inr stats"
| "parseRecords ParseInt ParseFloat (row # rest) stats =
     (case parseRecord ParseInt ParseFloat row stats of
        Inl err \<Rightarrow> Inl err
      | Inr stats' \<Rightarrow> parseRecords ParseInt ParseFloat rest stats')"

text \<open>The zero value \<open>&loadtest.AggregateStats{}\<close>.\<close>

definition zeroStats :: "('f::zero) AggregateStats" where
  "zeroStats =
     \<lparr>TotalTxs = 0, TotalTimeSeconds = 0, TotalBytes = 0, AvgTxRate = 0, AvgDataRate = 0\<rparr>"

text \<open>
  \<open>parseStats\<close> from the records on: opening the file and reading it as CSV are outside
  the model, \<open>records\<close> is what \<open>reader.ReadAll()\<close> returned.
\<close>

definition parseStats ::
  "(string \<Rightarrow> nat \<Rightarrow> nat \<Rightarrow> 'e + 64 word) \<Rightarrow> (string \<Rightarrow> nat \<Rightarrow> 'e + 'f) \<Rightarrow> string list list
     \<Rightarrow> 'e stats_error + ('f::zero) AggregateStats" where
  "parseStats ParseInt ParseFloat records =
     (if length records < 3 then Inl (ErrTooFewRecords (length records))
      else parseRecords ParseInt ParseFloat records zeroStats)"

text \<open>
  The first component of the pair that \<open>parseStats\<close> returns: the statistics, or \<open>nil\<close>
  next to an error.
\<close>

definition returnedStats :: "'e stats_error + 'f AggregateStats \<Rightarrow> 'f AggregateStats option" where
  "returnedStats res = (case res of Inl err \<Rightarrow> None | Inr stats \<Rightarrow> Some stats)"

subsection \<open>Example parsers and records\<close>

text \<open>
  Parsers of unsigned decimal numbers for the examples: the error is the rejected
  string, the float of the examples is a whole number.
\<close>

fun decimal :: "string \<Rightarrow> nat \<Rightarrow> nat option" where
  "decimal [] acc = Some acc"
| "decimal (c # cs) acc =
     (if 48 \<le> (of_char c :: nat) \<and> (of_char c :: nat) \<le> 57
      then decimal cs (10 * acc + (of_char c - 48))
      else None)"

definition exampleParseInt :: "string \<Rightarrow> nat \<Rightarrow> nat \<Rightarrow> string + 64 word" where
  "exampleParseInt s b bits =
     (case decimal s 0 of
        None \<Rightarrow> Inl s
      | Some n \<Rightarrow> if s = [] \<or> 2 ^ (bits - 1) \<le> n then Inl s else Inr (word_of_nat n))"

definition exampleParseFloat :: "string \<Rightarrow> nat \<Rightarrow> string + int" where
  "exampleParseFloat s bits =
     (case decimal s 0 of
        None \<Rightarrow> Inl s
      | Some n \<Rightarrow> if s = [] then Inl s else Inr (int n))"

definition exampleRecords :: "string list list" where
  "exampleRecords =
     [[''total_txs'', ''50'', ''count''],
      [],
      [''total_time'', ''5'', ''seconds''],
      [''total_bytes'', ''5000'', ''bytes'']]"

definition exampleRecordsShuffled :: "string list list" where
  "exampleRecordsShuffled =
     [[''total_bytes'', ''5000'', ''bytes''],
      [''total_time'', ''5'', ''seconds''],
      [''total_txs'', ''50'', ''count'']]"

section \<open>The Coordinator's merge of worker reports\<close>

text \<open>
  The source of the Coordinator is missing; the integration test only starts a
  Coordinator. Its merge of a \<open>StatsReport\<close> in the Running state is defined here from
  the specification, sections 3, 4.5, 4.6 and 7.
\<close>

text \<open>
  Modelled from the spec: the Worker Report (the \<open>StatsReport\<close> message), missing from
  the sources, "cumulative requests sent, cumulative bytes sent, and a completion/error
  flag". The counters are integers without a bound.
\<close>

record StatsReport =
  requests :: int
  bytes :: int
  completed :: bool

text \<open>
  Modelled from the spec: the aggregation state of the Coordinator, missing from the
  sources: the counters "previously recorded" for each registered worker (none for a
  worker that is not registered), the workers "treated as failed", and the "live
  aggregate counters" of requests and bytes.
\<close>

record Coordinator =
  recorded :: "nat \<Rightarrow> StatsReport option"
  failedWorkers :: "nat set"
  liveRequests :: int
  liveBytes :: int

text \<open>
  Modelled from the spec: the outcome of merging one report, missing from the sources:
  merged, or rejected as a \<open>ProtocolViolationError\<close>.
\<close>

datatype merge_outcome = Merged | ProtocolViolationError

text \<open>
  Modelled from the spec: the monotonic merge of the Running state, missing from the
  sources: "a report's counters must be \<open>\<ge>\<close> the previously recorded counters for that
  worker, else it is a protocol violation and the offending worker is treated as
  failed"; a "report from unregistered worker" is a protocol violation too. A worker
  that is treated as failed takes no further part in the run: every later report of it
  is rejected as a protocol violation and changes nothing. A merged report replaces the
  recorded one, and the live counters, the "sum of per-worker cumulative totals", grow
  by the difference.
\<close>

definition mergeReport :: "nat \<Rightarrow> StatsReport \<Rightarrow> Coordinator \<Rightarrow> merge_outcome \<times> Coordinator" where
  "mergeReport wk r co =
     (if wk \<in> failedWorkers co then (ProtocolViolationError, co)
      else
        (case recorded co wk of
           None \<Rightarrow> (ProtocolViolationError, co\<lparr>failedWorkers := insert wk (failedWorkers co)\<rparr>)
         | Some prev \<Rightarrow>
             if requests prev \<le> requests r \<and> bytes prev \<le> bytes r then
               (Merged,
                co\<lparr>recorded := (recorded co)(wk \<mapsto> r),
                   liveRequests := liveRequests co + (requests r - requests prev),
                   liveBytes := liveBytes co + (bytes r - bytes prev)\<rparr>)
             else
               (ProtocolViolationError,
                co\<lparr>failedWorkers := insert wk (failedWorkers co)\<rparr>)))"

text \<open>
  Modelled from the spec: the merge of a sequence of reports of one worker, missing
  from the sources: the reports "are delivered and merged in the order sent"; the run
  returns the outcome of each report and the final state.
\<close>

fun mergeReports ::
  "nat \<Rightarrow> StatsReport list \<Rightarrow> Coordinator \<Rightarrow> merge_outcome list \<times> Coordinator" where
  "mergeReports wk [] co = ([], co)"
| "mergeReports wk (r # rs) co =
     (let (out, co') = mergeReport wk r co;
          (outs, co'') = mergeReports wk rs co'
      in (out # outs, co''))"

subsection \<open>An example state and an example sequence of reports\<close>

definition exampleCoordinator :: Coordinator where
  "exampleCoordinator =
     \<lparr>recorded = (\<lambda>wk. None)(1 := Some \<lparr>requests = 10, bytes = 1000, completed = False\<rparr>),
      failedWorkers = {}, liveRequests = 10, liveBytes = 1000\<rparr>"

definition exampleReports :: "StatsReport list" where
  "exampleReports =
     [\<lparr>requests = 20, bytes = 2000, completed = False\<rparr>,
      \<lparr>requests = 15, bytes = 3000, completed = False\<rparr>,
      \<lparr>requests = 30, bytes = 3000, completed = True\<rparr>]"

section \<open>Auxiliary predicates of the proofs\<close>

text \<open>
  A slice is well formed in a world: its backing array is allocated and has the length
  of the capacity, and the length of the slice is within the capacity.
\<close>

definition slice_ok :: "slice \<Rightarrow> 'g world \<Rightarrow> bool" where
  "slice_ok s w \<longleftrightarrow> base s < nxt w \<and> len s \<le> cap s \<and> length (arrays w (base s)) = cap s"

section \<open>Properties of the suffix-length lookup\<close>

lemma table_length: "sint (word_of_nat (length kvstoreMaxTxsByKeySuffixLen) :: goint) = 16"
  by (simp add: kvstoreMaxTxsByKeySuffixLen_def)

text \<open>The loop over the sixteen entries, written out.\<close>

lemma requiredKVStoreSuffixLen_chain:
  "requiredKVStoreSuffixLen m =
    (if m < 62 then Inr 2 else if m < 1891 then Inr 3 else if m < 37820 then Inr 4
     else if m < 557845 then Inr 5 else if m < 6471002 then Inr 6
     else if m < 61474519 then Inr 7 else if m < 491796152 then Inr 8
     else if m < 3381098545 then Inr 9 else if m < 20286591270 then Inr 10
     else if m < 107518933731 then Inr 11 else if m < 508271323092 then Inr 12
     else if m < 2160153123141 then Inr 13 else if m < 8308281242850 then Inr 14
     else if m < 29078984349975 then Inr 15 else if m < 93052749919920 then Inr 16
     else Inl (ErrTooManyTxs m))"
  unfolding requiredKVStoreSuffixLen_def
  apply (subst kvstoreMaxTxsByKeySuffixLen_def)
  apply (simp only: suffixLenLoop.simps table_length)
  apply simp
  done

lemma requiredKVStoreSuffixLen_out_of_range:
  "93052749919920 \<le> m \<Longrightarrow> requiredKVStoreSuffixLen m = Inl (ErrTooManyTxs m)"
  by (simp add: requiredKVStoreSuffixLen_chain word_less_nat_alt word_le_nat_alt)

lemma requiredKVStoreSuffixLen_in_range:
  "m < 93052749919920 \<Longrightarrow>
     \<exists>n. requiredKVStoreSuffixLen m = Inr n \<and> 2 \<le> sint n \<and> sint n \<le> 16"
  by (simp add: requiredKVStoreSuffixLen_chain)

text \<open>No addition of \<open>ValidateConfig\<close>'s minimum size wraps around.\<close>

lemma minTxSize_no_wrap:
  "m < 93052749919920 \<Longrightarrow>
     \<exists>n. requiredKVStoreSuffixLen m = Inr n \<and> 2 \<le> sint n \<and> sint n \<le> 16 \<and>
         sint (KVStoreClientIDLen + n + 1 + kvstoreMinValueLen) =
           sint KVStoreClientIDLen + sint n + 1 + sint kvstoreMinValueLen"
  by (simp add: requiredKVStoreSuffixLen_chain KVStoreClientIDLen_def kvstoreMinValueLen_def)

text \<open>A successful lookup returns one more than the first index whose entry exceeds the count.\<close>

lemma suffixLenLoop_first:
  "suffixLenLoop m l xs = Inr n \<Longrightarrow>
     \<exists>i<length xs. n = l + word_of_nat i + 1 \<and> m < xs ! i \<and> (\<forall>j<i. \<not> m < xs ! j)"
proof (induction xs arbitrary: l)
  case Nil
  then show ?case by simp
next
  case (Cons x xs)
  show ?case
  proof (cases "m < x")
    case True
    with Cons.prems have "n = l + 1" by (simp split: if_splits)
    with True show ?thesis by (intro exI [of _ 0]) simp
  next
    case False
    with Cons.prems have "suffixLenLoop m (l + 1) xs = Inr n" by simp
    from Cons.IH [OF this] obtain i where i: "i < length xs" "n = l + 1 + word_of_nat i + 1"
      "m < xs ! i" "\<forall>j<i. \<not> m < xs ! j" by blast
    have "\<forall>j<Suc i. \<not> m < (x # xs) ! j"
      using False i(4) by (auto simp: less_Suc_eq_0_disj)
    with i show ?thesis by (intro exI [of _ "Suc i"]) (simp add: algebra_simps)
  qed
qed

subsection \<open>The table entries are binomial coefficients\<close>

lemma choose_step:
  fixes n k k' v w :: nat
  assumes "n choose k = v" and "k' = k + 1" and "(n - k) * v = k' * w"
  shows "n choose k' = w"
proof -
  have "Suc k * (n choose Suc k) = n * ((n - 1) choose k)"
    by (rule binomial_absorption)
  also have "\<dots> = (n - k) * (n choose k)"
    by (rule binomial_absorb_comp [symmetric])
  finally have "Suc k * (n choose Suc k) = Suc k * w"
    using assms by simp
  then have "n choose Suc k = w"
    by (simp only: nat_mult_eq_cancel1 [OF zero_less_Suc])
  then show ?thesis using assms(2) by simp
qed

lemma choose_62_1: "(62::nat) choose 1 = 62" by simp
lemma choose_62_2: "(62::nat) choose 2 = 1891" by (rule choose_step [OF choose_62_1]) simp_all
lemma choose_62_3: "(62::nat) choose 3 = 37820" by (rule choose_step [OF choose_62_2]) simp_all
lemma choose_62_4: "(62::nat) choose 4 = 557845" by (rule choose_step [OF choose_62_3]) simp_all
lemma choose_62_5: "(62::nat) choose 5 = 6471002" by (rule choose_step [OF choose_62_4]) simp_all
lemma choose_62_6: "(62::nat) choose 6 = 61474519" by (rule choose_step [OF choose_62_5]) simp_all
lemma choose_62_7: "(62::nat) choose 7 = 491796152" by (rule choose_step [OF choose_62_6]) simp_all
lemma choose_62_8: "(62::nat) choose 8 = 3381098545" by (rule choose_step [OF choose_62_7]) simp_all
lemma choose_62_9: "(62::nat) choose 9 = 20286591270" by (rule choose_step [OF choose_62_8]) simp_all
lemma choose_62_10: "(62::nat) choose 10 = 107518933731" by (rule choose_step [OF choose_62_9]) simp_all
lemma choose_62_11: "(62::nat) choose 11 = 508271323092" by (rule choose_step [OF choose_62_10]) simp_all
lemma choose_62_12: "(62::nat) choose 12 = 2160153123141" by (rule choose_step [OF choose_62_11]) simp_all
lemma choose_62_13: "(62::nat) choose 13 = 8308281242850" by (rule choose_step [OF choose_62_12]) simp_all
lemma choose_62_14: "(62::nat) choose 14 = 29078984349975" by (rule choose_step [OF choose_62_13]) simp_all
lemma choose_62_15: "(62::nat) choose 15 = 93052749919920" by (rule choose_step [OF choose_62_14]) simp_all

lemmas choose_62 = choose_62_1 choose_62_2 choose_62_3 choose_62_4 choose_62_5 choose_62_6
  choose_62_7 choose_62_8 choose_62_9 choose_62_10 choose_62_11 choose_62_12 choose_62_13
  choose_62_14 choose_62_15

lemma table_binomial:
  "\<forall>l\<in>{1..15}. unat (kvstoreMaxTxsByKeySuffixLen ! l) = 62 choose l"
proof
  fix l :: nat assume "l \<in> {1..15}"
  then have "1 \<le> l \<and> l \<le> 15" by simp
  then have "l = 1 \<or> l = 2 \<or> l = 3 \<or> l = 4 \<or> l = 5 \<or> l = 6 \<or> l = 7 \<or> l = 8 \<or> l = 9
     \<or> l = 10 \<or> l = 11 \<or> l = 12 \<or> l = 13 \<or> l = 14 \<or> l = 15"
    by arith
  then show "unat (kvstoreMaxTxsByKeySuffixLen ! l) = 62 choose l"
    by (elim disjE) (simp_all only: choose_62, simp_all add: kvstoreMaxTxsByKeySuffixLen_def)
qed

section \<open>Properties of the memory operations\<close>

lemma callRandStr_frame:
  assumes "callRandStr randStr n w = (s, w')"
  shows "arrays w' = arrays w" and "clients w' = clients w" and "nxt w' = nxt w"
    and "s = fst (randStr (sint n) (rng w))"
  using assms by (auto simp: callRandStr_def split: prod.splits)

lemma bytesOfString_props:
  assumes "bytesOfString capFor str w = (b, w')"
  shows "base b = nxt w" and "len b = length str" and "nxt w' = Suc (nxt w)"
    and "clients w' = clients w" and "rng w' = rng w"
    and "readSlice b w' = str" and "slice_ok b w'"
    and "\<And>a. a \<noteq> nxt w \<Longrightarrow> arrays w' a = arrays w a"
  using assms by (auto simp: bytesOfString_def Let_def readSlice_def slice_ok_def)

lemma take_min_length: "take (min (length xs) n) xs = take n xs"
  by (simp add: min_def)

lemma append_go_props:
  assumes ok: "slice_ok s w" and ap: "append_go capFor s t w = (r, w')"
  shows "readSlice r w' = readSlice s w @ readSlice t w"
    and "slice_ok r w'"
    and "nxt w \<le> nxt w'"
    and "clients w' = clients w" and "rng w' = rng w"
    and "\<And>a. a \<noteq> base s \<Longrightarrow> a < nxt w \<Longrightarrow> arrays w' a = arrays w a"
    and "take (len s) (arrays w' (base s)) = take (len s) (arrays w (base s))"
    and "length (arrays w' (base s)) = length (arrays w (base s))"
    and "len s \<le> len r" and "len r = len s + length (readSlice t w)"
    and "base r = base s \<or> base r = nxt w"
proof -
  let ?xs = "readSlice t w"
  let ?n = "len s + length ?xs"
  show "readSlice r w' = readSlice s w @ readSlice t w"
    using ok ap by (auto simp: append_go_def Let_def readSlice_def slice_ok_def take_min_length split: if_splits)
  show "slice_ok r w'"
    using ok ap by (auto simp: append_go_def Let_def readSlice_def slice_ok_def split: if_splits)
  show "nxt w \<le> nxt w'"
    using ok ap by (auto simp: append_go_def Let_def split: if_splits)
  show "clients w' = clients w"
    using ok ap by (auto simp: append_go_def Let_def split: if_splits)
  show "rng w' = rng w"
    using ok ap by (auto simp: append_go_def Let_def split: if_splits)
  show "\<And>a. a \<noteq> base s \<Longrightarrow> a < nxt w \<Longrightarrow> arrays w' a = arrays w a"
    using ok ap by (auto simp: append_go_def Let_def split: if_splits)
  show "take (len s) (arrays w' (base s)) = take (len s) (arrays w (base s))"
    using ok ap by (auto simp: append_go_def Let_def slice_ok_def split: if_splits)
  show "length (arrays w' (base s)) = length (arrays w (base s))"
    using ok ap by (auto simp: append_go_def Let_def slice_ok_def readSlice_def split: if_splits)
  show "len s \<le> len r"
    using ap by (auto simp: append_go_def Let_def split: if_splits)
  show "len r = len s + length (readSlice t w)"
    using ap by (auto simp: append_go_def Let_def split: if_splits)
  show "base r = base s \<or> base r = nxt w"
    using ap by (auto simp: append_go_def Let_def split: if_splits)
qed

lemma append_go_frame:
  assumes "append_go capFor s t w = (r, w')" and "a \<noteq> base s" and "a < nxt w"
  shows "arrays w' a = arrays w a"
  using assms by (auto simp: append_go_def Let_def split: if_splits)

lemma callRandStr_keeps:
  assumes "callRandStr randStr n w = (str, w')" and "slice_ok u w"
  shows "slice_ok u w'" and "readSlice u w' = readSlice u w"
  using assms by (auto simp: callRandStr_def slice_ok_def readSlice_def split: prod.splits)

lemma bytesOfString_keeps:
  assumes "bytesOfString capFor str w = (b, w')" and "slice_ok u w"
  shows "slice_ok u w'" and "readSlice u w' = readSlice u w"
  using assms by (auto simp: bytesOfString_def Let_def slice_ok_def readSlice_def)

lemma append_go_keeps:
  assumes ok: "slice_ok s w" and ap: "append_go capFor s t w = (r, w')"
    and u: "slice_ok u w" and le: "base u = base s \<Longrightarrow> len u \<le> len s"
  shows "slice_ok u w'" and "readSlice u w' = readSlice u w"
proof -
  have nx: "nxt w \<le> nxt w'" by (rule append_go_props(3) [OF ok ap])
  show "slice_ok u w'"
  proof (cases "base u = base s")
    case True
    with append_go_props(8) [OF ok ap] u nx show ?thesis by (simp add: slice_ok_def)
  next
    case False
    with append_go_frame [OF ap, of "base u"] u nx show ?thesis by (simp add: slice_ok_def)
  qed
  show "readSlice u w' = readSlice u w"
  proof (cases "base u = base s")
    case True
    have "take (len u) (take (len s) (arrays w' (base s))) =
          take (len u) (take (len s) (arrays w (base s)))"
      by (simp only: append_go_props(7) [OF ok ap])
    with le [OF True] True show ?thesis by (simp add: readSlice_def min_def)
  next
    case False
    with append_go_frame [OF ap, of "base u"] u show ?thesis
      by (simp add: slice_ok_def readSlice_def)
  qed
qed



lemma GenerateTx_effect:
  assumes c: "clients w p = Some c" and ok: "slice_ok (keyPrefix c) w"
  shows "\<exists>r w'. GenerateTx randStr capFor p w = Some ((r, None), w')
      \<and> clients w' = clients w
      \<and> slice_ok (keyPrefix c) w'
      \<and> readSlice (keyPrefix c) w' = readSlice (keyPrefix c) w
      \<and> nxt w \<le> nxt w'
      \<and> (\<forall>a<nxt w. a \<noteq> base (keyPrefix c) \<longrightarrow> arrays w' a = arrays w a)
      \<and> (\<exists>g. readSlice r w' =
             readSlice (keyPrefix c) w @ fst (randStr (sint (keySuffixLen c)) (rng w)) @ ''=''
               @ fst (randStr (sint (valueLen c)) g))"
proof -
  let ?kp = "keyPrefix c"
  obtain s1 w1 where e1: "callRandStr randStr (keySuffixLen c) w = (s1, w1)"
    by (cases "callRandStr randStr (keySuffixLen c) w")
  obtain b1 w2 where e2: "bytesOfString capFor s1 w1 = (b1, w2)"
    by (cases "bytesOfString capFor s1 w1")
  obtain k w3 where e3: "append_go capFor ?kp b1 w2 = (k, w3)"
    by (cases "append_go capFor ?kp b1 w2")
  obtain s2 w4 where e4: "callRandStr randStr (valueLen c) w3 = (s2, w4)"
    by (cases "callRandStr randStr (valueLen c) w3")
  obtain v w5 where e5: "bytesOfString capFor s2 w4 = (v, w5)"
    by (cases "bytesOfString capFor s2 w4")
  obtain eq w6 where e6: "bytesOfString capFor ''='' w5 = (eq, w6)"
    by (cases "bytesOfString capFor ''='' w5")
  obtain ev w7 where e7: "append_go capFor eq v w6 = (ev, w7)"
    by (cases "append_go capFor eq v w6")
  obtain r w8 where e8: "append_go capFor k ev w7 = (r, w8)"
    by (cases "append_go capFor k ev w7")
  have res: "GenerateTx randStr capFor p w = Some ((r, None), w8)"
    by (simp add: GenerateTx_def c e1 e2 e3 e4 e5 e6 e7 e8)
  \<comment> \<open>the key prefix up to the first append\<close>
  have kp1: "slice_ok ?kp w1" "readSlice ?kp w1 = readSlice ?kp w"
    using callRandStr_keeps [OF e1 ok] by simp_all
  have kp2: "slice_ok ?kp w2" "readSlice ?kp w2 = readSlice ?kp w"
    using bytesOfString_keeps [OF e2 kp1(1)] kp1(2) by simp_all
  have kp3: "slice_ok ?kp w3" "readSlice ?kp w3 = readSlice ?kp w"
    using append_go_keeps [OF kp2(1) e3 kp2(1)] kp2(2) by simp_all
  have k3: "slice_ok k w3" "readSlice k w3 = readSlice ?kp w @ s1" "len ?kp \<le> len k"
    "base k = base ?kp \<or> base k = nxt w2"
    using append_go_props [OF kp2(1) e3] kp2(2) bytesOfString_props(6) [OF e2] by simp_all
  \<comment> \<open>addresses\<close>
  have n1: "nxt w1 = nxt w" using callRandStr_frame(3) [OF e1] .
  have n2: "nxt w2 = Suc (nxt w)" using bytesOfString_props(3) [OF e2] n1 by simp
  have n3: "nxt w2 \<le> nxt w3" using append_go_props(3) [OF kp2(1) e3] .
  have n4: "nxt w4 = nxt w3" using callRandStr_frame(3) [OF e4] .
  have n5: "nxt w5 = Suc (nxt w4)" using bytesOfString_props(3) [OF e5] .
  have n6: "nxt w6 = Suc (nxt w5)" using bytesOfString_props(3) [OF e6] .
  have bv: "base v = nxt w4" using bytesOfString_props(1) [OF e5] .
  have beq: "base eq = nxt w5" using bytesOfString_props(1) [OF e6] .
  have bkp: "base ?kp < nxt w" using ok by (simp add: slice_ok_def)
  have bk: "base k < nxt w3" using k3(1) by (simp add: slice_ok_def)
  \<comment> \<open>the key prefix and the key up to the last append\<close>
  have kp4: "slice_ok ?kp w4" "readSlice ?kp w4 = readSlice ?kp w"
    using callRandStr_keeps [OF e4 kp3(1)] kp3(2) by simp_all
  have kp5: "slice_ok ?kp w5" "readSlice ?kp w5 = readSlice ?kp w"
    using bytesOfString_keeps [OF e5 kp4(1)] kp4(2) by simp_all
  have kp6: "slice_ok ?kp w6" "readSlice ?kp w6 = readSlice ?kp w"
    using bytesOfString_keeps [OF e6 kp5(1)] kp5(2) by simp_all
  have k4: "slice_ok k w4" "readSlice k w4 = readSlice ?kp w @ s1"
    using callRandStr_keeps [OF e4 k3(1)] k3(2) by simp_all
  have k5: "slice_ok k w5" "readSlice k w5 = readSlice ?kp w @ s1"
    using bytesOfString_keeps [OF e5 k4(1)] k4(2) by simp_all
  have k6: "slice_ok k w6" "readSlice k w6 = readSlice ?kp w @ s1"
    using bytesOfString_keeps [OF e6 k5(1)] k5(2) by simp_all
  have v5: "slice_ok v w5" "readSlice v w5 = s2"
    using bytesOfString_props [OF e5] by simp_all
  have v6: "slice_ok v w6" "readSlice v w6 = s2"
    using bytesOfString_keeps [OF e6 v5(1)] v5(2) by simp_all
  have eq6: "slice_ok eq w6" "readSlice eq w6 = ''=''"
    using bytesOfString_props [OF e6] by simp_all
  have kp_ne: "base ?kp \<noteq> base eq" using bkp n1 n2 n3 n4 n5 beq by simp
  have k_ne: "base k \<noteq> base eq" using bk n4 n5 beq by simp
  have kp7: "slice_ok ?kp w7" "readSlice ?kp w7 = readSlice ?kp w"
    using append_go_keeps [OF eq6(1) e7 kp6(1)] kp_ne kp6(2) by simp_all
  have k7: "slice_ok k w7" "readSlice k w7 = readSlice ?kp w @ s1"
    using append_go_keeps [OF eq6(1) e7 k6(1)] k_ne k6(2) by simp_all
  have ev7: "readSlice ev w7 = ''='' @ s2"
    using append_go_props(1) [OF eq6(1) e7] eq6(2) v6(2) by simp
  have kp8: "slice_ok ?kp w8" "readSlice ?kp w8 = readSlice ?kp w"
    using append_go_keeps [OF k7(1) e8 kp7(1)] k3(3) kp7(2) by simp_all
  have r8: "readSlice r w8 = readSlice ?kp w @ s1 @ ''='' @ s2"
    using append_go_props(1) [OF k7(1) e8] k7(2) ev7 by simp
  have s1: "s1 = fst (randStr (sint (keySuffixLen c)) (rng w))"
    using callRandStr_frame(4) [OF e1] .
  have s2: "s2 = fst (randStr (sint (valueLen c)) (rng w3))"
    using callRandStr_frame(4) [OF e4] .
  \<comment> \<open>the struct store\<close>
  have cl: "clients w8 = clients w"
    using callRandStr_frame(2) [OF e1] bytesOfString_props(4) [OF e2]
      append_go_props(4) [OF kp2(1) e3] callRandStr_frame(2) [OF e4]
      bytesOfString_props(4) [OF e5] bytesOfString_props(4) [OF e6]
      append_go_props(4) [OF eq6(1) e7] append_go_props(4) [OF k7(1) e8]
    by simp
  have n7: "nxt w6 \<le> nxt w7" using append_go_props(3) [OF eq6(1) e7] .
  have n8: "nxt w7 \<le> nxt w8" using append_go_props(3) [OF k7(1) e8] .
  have nx: "nxt w \<le> nxt w8" using n1 n2 n3 n4 n5 n6 n7 n8 by simp
  \<comment> \<open>the arrays that existed before the call\<close>
  have fr: "arrays w8 a = arrays w a" if a: "a < nxt w" "a \<noteq> base ?kp" for a
  proof -
    have a1: "arrays w1 a = arrays w a" using callRandStr_frame(1) [OF e1] by simp
    have a2: "arrays w2 a = arrays w1 a"
      using bytesOfString_props(8) [OF e2, of a] a(1) n1 by simp
    have a3: "arrays w3 a = arrays w2 a"
      using append_go_frame [OF e3, of a] a n2 by simp
    have a4: "arrays w4 a = arrays w3 a" using callRandStr_frame(1) [OF e4] by simp
    have a5: "arrays w5 a = arrays w4 a"
      using bytesOfString_props(8) [OF e5, of a] a(1) n2 n3 n4 by simp
    have a6: "arrays w6 a = arrays w5 a"
      using bytesOfString_props(8) [OF e6, of a] a(1) n2 n3 n4 n5 by simp
    have a7: "arrays w7 a = arrays w6 a"
      using append_go_frame [OF e7, of a] a(1) beq n2 n3 n4 n5 n6 by simp
    have "a \<noteq> base k" using k3(4) a n2 by auto
    then have a8: "arrays w8 a = arrays w7 a"
      using append_go_frame [OF e8, of a] a(1) n2 n3 n4 n5 n6 n7 by simp
    show ?thesis using a1 a2 a3 a4 a5 a6 a7 a8 by simp
  qed
  show ?thesis
    using res cl kp8 nx fr r8 s1 s2 by blast
qed




section \<open>Properties of the client\<close>

subsection \<open>Signed arithmetic that stays in range\<close>

lemma sint_sub_small:
  fixes a b :: goint
  assumes "0 \<le> sint b" and "sint b \<le> sint a"
  shows "sint (a - b) = sint a - sint b"
proof -
  have a: "sint a < 2 ^ 63" using sint_lt [of a] by simp
  have "sint (a - b) = signed_take_bit 63 (sint a - sint b)"
    using sint_word_ariths(2) [of a b] by simp
  also have "\<dots> = sint a - sint b"
    using assms a by (intro signed_take_bit_int_eq_self) simp_all
  finally show ?thesis .
qed

lemma sint_add_small:
  fixes a b :: goint
  assumes "0 \<le> sint a" and "0 \<le> sint b" and "sint a + sint b < 2 ^ 63"
  shows "sint (a + b) = sint a + sint b"
proof -
  have "sint (a + b) = signed_take_bit 63 (sint a + sint b)"
    using sint_word_ariths(1) [of a b] by simp
  also have "\<dots> = sint a + sint b"
    using assms by (intro signed_take_bit_int_eq_self) simp_all
  finally show ?thesis .
qed

lemma keyLen_no_wrap:
  fixes l :: goint
  assumes "2 \<le> sint l" and "sint l \<le> 16"
  shows "sint (l + 6) = sint l + 6"
  using sint_add_small [of l 6] assms by simp

lemma valueLen_no_wrap:
  fixes l sz :: goint
  assumes "2 \<le> sint l" and "sint l \<le> 16" and "sint l + 7 \<le> sint sz"
  shows "sint (sz - (word_of_nat 5 + l) - 1) = sint sz - sint l - 6"
proof -
  have e: "sz - (word_of_nat 5 + l) - 1 = sz - (l + 6)" by simp
  have k: "sint (l + 6) = sint l + 6"
    by (rule keyLen_no_wrap [OF assms(1,2)])
  have "sint (sz - (l + 6)) = sint sz - sint (l + 6)"
    using assms k by (intro sint_sub_small) simp_all
  then show ?thesis by (simp only: e k)
qed


lemma ValidateConfig_accepted:
  assumes acc: "ValidateConfig MaxTxsPerEndpoint cfg = None"
  shows "\<exists>l. requiredKVStoreSuffixLen (MaxTxsPerEndpoint cfg) = Inr l
      \<and> 2 \<le> sint l \<and> sint l \<le> 16 \<and> sint l + 7 \<le> sint (Size cfg)"
proof -
  let ?m = "MaxTxsPerEndpoint cfg"
  have lt: "?m < 93052749919920"
  proof (rule ccontr)
    assume "\<not> ?m < 93052749919920"
    then have "93052749919920 \<le> ?m" by simp
    from requiredKVStoreSuffixLen_out_of_range [OF this] acc show False
      by (simp add: ValidateConfig_def Let_def split: if_splits)
  qed
  from minTxSize_no_wrap [OF lt] obtain l where
    l: "requiredKVStoreSuffixLen ?m = Inr l" "2 \<le> sint l" "sint l \<le> 16"
    and s: "sint (KVStoreClientIDLen + l + 1 + kvstoreMinValueLen) =
           sint KVStoreClientIDLen + sint l + 1 + sint kvstoreMinValueLen"
    by blast
  from acc l(1) have "\<not> sint (Size cfg) < sint (KVStoreClientIDLen + l + 1 + kvstoreMinValueLen)"
    by (simp add: ValidateConfig_def Let_def split: if_splits)
  with s have "sint l + 7 \<le> sint (Size cfg)"
    by (simp add: KVStoreClientIDLen_def kvstoreMinValueLen_def)
  with l show ?thesis by blast
qed

lemma NewClient_effect:
  assumes l: "requiredKVStoreSuffixLen (MaxTxsPerEndpoint cfg) = Inr l"
    and rs: "int (length (fst (randStr 5 (rng w)))) = 5"
  shows "\<exists>p w1 c. NewClient randStr capFor MaxTxsPerEndpoint cfg w = (Inr p, w1)
      \<and> clients w1 p = Some c \<and> slice_ok (keyPrefix c) w1
      \<and> length (readSlice (keyPrefix c) w1) = 5
      \<and> keySuffixLen c = l \<and> valueLen c = Size cfg - (word_of_nat 5 + l) - 1"
proof -
  obtain s w1 where e1: "callRandStr randStr KVStoreClientIDLen w = (s, w1)"
    by (cases "callRandStr randStr KVStoreClientIDLen w")
  obtain b w2 where e2: "bytesOfString capFor s w1 = (b, w2)"
    by (cases "bytesOfString capFor s w1")
  let ?c = "\<lparr>keyPrefix = b, keySuffixLen = l,
             valueLen = Size cfg - (word_of_nat (len b) + l) - 1\<rparr>"
  let ?w3 = "w2\<lparr>clients := (clients w2)(nxt w2 \<mapsto> ?c), nxt := nxt w2 + 1\<rparr>"
  have n: "NewClient randStr capFor MaxTxsPerEndpoint cfg w = (Inr (nxt w2), ?w3)"
    by (simp add: NewClient_def e1 e2 l Let_def)
  have "s = fst (randStr (sint KVStoreClientIDLen) (rng w))"
    by (rule callRandStr_frame(4) [OF e1])
  with rs have ls: "length s = 5" by (simp add: KVStoreClientIDLen_def)
  have lb: "len b = 5" using bytesOfString_props(2) [OF e2] ls by simp
  have ok2: "slice_ok b w2" by (rule bytesOfString_props(7) [OF e2])
  then have ok3: "slice_ok b ?w3" by (simp add: slice_ok_def)
  have "readSlice b w2 = s" by (rule bytesOfString_props(6) [OF e2])
  then have rd: "length (readSlice b ?w3) = 5" using ls by (simp add: readSlice_def)
  show ?thesis
    using n ok3 rd lb by simp
qed

lemma GenerateTxs_effect:
  assumes c: "clients w p = Some c" and ok: "slice_ok (keyPrefix c) w"
  shows "\<exists>txs w2. GenerateTxs randStr capFor p n w = Some (txs, w2) \<and> length txs = n
      \<and> (\<forall>tx\<in>set txs. \<exists>g g'. tx = readSlice (keyPrefix c) w
             @ fst (randStr (sint (keySuffixLen c)) g) @ ''=''
             @ fst (randStr (sint (valueLen c)) g'))"
  using assms
proof (induction n arbitrary: w)
  case 0
  show ?case by simp
next
  case (Suc n)
  from GenerateTx_effect [OF Suc.prems, of randStr capFor] obtain r w' g where
    r: "GenerateTx randStr capFor p w = Some ((r, None), w')"
    and cl: "clients w' = clients w" and ok': "slice_ok (keyPrefix c) w'"
    and kp: "readSlice (keyPrefix c) w' = readSlice (keyPrefix c) w"
    and tx: "readSlice r w' = readSlice (keyPrefix c) w
        @ fst (randStr (sint (keySuffixLen c)) (rng w)) @ ''=''
        @ fst (randStr (sint (valueLen c)) g)"
    by blast
  have c': "clients w' p = Some c" using cl Suc.prems(1) by simp
  from Suc.IH [OF c' ok'] obtain txs w2 where
    t: "GenerateTxs randStr capFor p n w' = Some (txs, w2)" "length txs = n"
    "\<forall>tx\<in>set txs. \<exists>g g'. tx = readSlice (keyPrefix c) w'
             @ fst (randStr (sint (keySuffixLen c)) g) @ ''=''
             @ fst (randStr (sint (valueLen c)) g')"
    by blast
  have "GenerateTxs randStr capFor p (Suc n) w = Some (readSlice r w' # txs, w2)"
    using r t(1) by simp
  moreover have "length (readSlice r w' # txs) = Suc n" using t(2) by simp
  moreover have "\<forall>tx\<in>set (readSlice r w' # txs). \<exists>g g'. tx = readSlice (keyPrefix c) w
             @ fst (randStr (sint (keySuffixLen c)) g) @ ''=''
             @ fst (randStr (sint (valueLen c)) g')"
    using tx t(3) kp by auto
  ultimately show ?case by blast
qed

section \<open>Properties of parseStats\<close>

text \<open>
  Whether a row parses does not depend on the statistics gathered so far, and two rows
  commute when one of them is blank or their labels differ.
\<close>

lemma parseRecord_blank: "parseRecord PI PF [] s = Inr s"
  by (simp add: parseRecord_def)

lemma parseRecord_fails_everywhere:
  "parseRecord PI PF x s = Inl e \<Longrightarrow> parseRecord PI PF x t = Inl e"
  by (auto simp: parseRecord_def split: if_splits sum.splits)

lemma parseRecord_succeeds_everywhere:
  "parseRecord PI PF x s = Inr s1 \<Longrightarrow> \<exists>t1. parseRecord PI PF x t = Inr t1"
  by (auto simp: parseRecord_def split: if_splits sum.splits)

lemma parseRecord_commute_labelled:
  assumes "x ! 0 \<noteq> y ! 0"
    and "parseRecord PI PF x s = Inr s1" and "parseRecord PI PF y s1 = Inr s2"
    and "parseRecord PI PF y s = Inr t1"
  shows "parseRecord PI PF x t1 = Inr s2"
  using assms
  by (auto simp: parseRecord_def AggregateStats.update_convs split: if_splits sum.splits)

lemma parseRecord_commute:
  assumes d: "x = [] \<or> y = [] \<or> hd x \<noteq> hd y"
    and x: "parseRecord PI PF x s = Inr s1" and y: "parseRecord PI PF y s1 = Inr s2"
  shows "\<exists>t1. parseRecord PI PF y s = Inr t1 \<and> parseRecord PI PF x t1 = Inr s2"
proof -
  consider "x = []" | "y = []" | "x \<noteq> []" "y \<noteq> []" "hd x \<noteq> hd y" using d by blast
  then show ?thesis
  proof cases
    case 1
    with x y show ?thesis by (simp add: parseRecord_blank)
  next
    case 2
    with x y show ?thesis by (simp add: parseRecord_blank)
  next
    case 3
    then have ne: "x ! 0 \<noteq> y ! 0" by (simp add: hd_conv_nth)
    from parseRecord_succeeds_everywhere [OF y, of s] obtain t1 where
      t1: "parseRecord PI PF y s = Inr t1" by blast
    from parseRecord_commute_labelled [OF ne x y t1] t1 show ?thesis by blast
  qed
qed

lemma returnedStats_simps:
  "returnedStats (Inl e) = None" "returnedStats (Inr s) = Some s"
  by (simp_all add: returnedStats_def)

lemma parseRecords_swap:
  assumes d: "x = [] \<or> y = [] \<or> hd x \<noteq> hd y"
  shows "returnedStats (parseRecords PI PF (x # y # rest) s) =
         returnedStats (parseRecords PI PF (y # x # rest) s)"
proof (cases "parseRecord PI PF x s")
  case (Inl e)
  show ?thesis
  proof (cases "parseRecord PI PF y s")
    case (Inl e')
    with \<open>parseRecord PI PF x s = Inl e\<close> show ?thesis by (simp add: returnedStats_simps)
  next
    case (Inr t1)
    with \<open>parseRecord PI PF x s = Inl e\<close>
      parseRecord_fails_everywhere [OF \<open>parseRecord PI PF x s = Inl e\<close>, of t1]
    show ?thesis by (simp add: returnedStats_simps)
  qed
next
  case (Inr s1)
  note x = this
  show ?thesis
  proof (cases "parseRecord PI PF y s1")
    case (Inl e)
    from parseRecord_fails_everywhere [OF this, of s] x Inl show ?thesis
      by (simp add: returnedStats_simps)
  next
    case (Inr s2)
    from parseRecord_commute [OF d x Inr] obtain t1 where
      "parseRecord PI PF y s = Inr t1" "parseRecord PI PF x t1 = Inr s2" by blast
    with x Inr show ?thesis by simp
  qed
qed

lemma parseRecords_cong:
  assumes "\<And>s1. returnedStats (parseRecords PI PF r1 s1) = returnedStats (parseRecords PI PF r2 s1)"
  shows "returnedStats (parseRecords PI PF (y # r1) s) = returnedStats (parseRecords PI PF (y # r2) s)"
  using assms by (cases "parseRecord PI PF y s") (simp_all add: returnedStats_simps)

lemma parseRecords_to_front:
  assumes "\<forall>y\<in>set ys. x = [] \<or> y = [] \<or> hd x \<noteq> hd y"
  shows "returnedStats (parseRecords PI PF (ys @ x # zs) s) =
         returnedStats (parseRecords PI PF (x # ys @ zs) s)"
  using assms
proof (induction ys arbitrary: s)
  case Nil
  show ?case by simp
next
  case (Cons y ys)
  have "returnedStats (parseRecords PI PF ((y # ys) @ x # zs) s) =
        returnedStats (parseRecords PI PF (y # x # ys @ zs) s)"
    using parseRecords_cong [of PI PF "ys @ x # zs" "x # ys @ zs" y s] Cons by simp
  also have "\<dots> = returnedStats (parseRecords PI PF (x # y # ys @ zs) s)"
    using parseRecords_swap [of y x PI PF "ys @ zs" s] Cons.prems by auto
  finally show ?case by simp
qed

lemma parseRecords_permute:
  assumes "mset ys = mset xs" and "distinct (map hd (filter (\<lambda>row. row \<noteq> []) xs))"
  shows "returnedStats (parseRecords PI PF ys s) = returnedStats (parseRecords PI PF xs s)"
  using assms
proof (induction xs arbitrary: ys s)
  case Nil
  then show ?case by simp
next
  case (Cons x xs)
  from Cons.prems(1) have "x \<in> set ys" by (metis list.set_intros(1) mset_eq_setD)
  then obtain ys1 ys2 where ys: "ys = ys1 @ x # ys2" by (auto dest: split_list)
  with Cons.prems(1) have m: "mset (ys1 @ ys2) = mset xs" by simp
  have dx: "distinct (map hd (filter (\<lambda>row. row \<noteq> []) xs))"
    using Cons.prems(2) by (simp split: if_splits)
  have "x = [] \<or> y = [] \<or> hd x \<noteq> hd y" if "y \<in> set ys1" for y
  proof -
    from that m have "y \<in> set xs" by (metis UnCI mset_eq_setD set_append)
    with Cons.prems(2) show ?thesis by (auto split: if_splits)
  qed
  then have "returnedStats (parseRecords PI PF ys s) =
        returnedStats (parseRecords PI PF (x # ys1 @ ys2) s)"
    unfolding ys by (intro parseRecords_to_front) blast
  also have "\<dots> = returnedStats (parseRecords PI PF (x # xs) s)"
    by (rule parseRecords_cong) (rule Cons.IH [OF m dx])
  finally show ?case .
qed

lemma parseRecords_skip_blank:
  "parseRecords PI PF (filter (\<lambda>row. row \<noteq> []) xs) s = parseRecords PI PF xs s"
  by (induction xs arbitrary: s) (auto simp: parseRecord_blank split: sum.splits)

section \<open>The claims about the suffix-length lookup and the validation\<close>

text \<open>
  Claim C9. \<open>requiredKVStoreSuffixLen\<close> returns a length exactly when its argument is
  strictly below 93052749919920, the last entry of the table; a returned length lies
  between 1 and 16; and the error of the inner branch of the loop, taken when \<open>l + 1\<close>
  exceeds the length of the table, is returned for no argument.
\<close>

theorem requiredKVStoreSuffixLen_succeeds_iff:
  "((\<exists>n. requiredKVStoreSuffixLen m = Inr n) \<longleftrightarrow> m < 93052749919920)
   \<and> (\<forall>n. requiredKVStoreSuffixLen m = Inr n \<longrightarrow> 1 \<le> sint n \<and> sint n \<le> 16)
   \<and> (\<forall>c k. requiredKVStoreSuffixLen m \<noteq> Inl (ErrSuffixLen c k))"
proof (cases "m < 93052749919920")
  case True
  from requiredKVStoreSuffixLen_in_range [OF True] show ?thesis using True by auto
next
  case False
  then have "93052749919920 \<le> m" by simp
  from requiredKVStoreSuffixLen_out_of_range [OF this] show ?thesis using False by simp
qed

theorem requiredKVStoreSuffixLen_succeeds_iff_witness:
  "requiredKVStoreSuffixLen 50 = Inr 2 \<and> (50::uint64) < 93052749919920 \<and>
   1 \<le> sint (2::goint) \<and> sint (2::goint) \<le> 16 \<and>
   requiredKVStoreSuffixLen 93052749919920 = Inl (ErrTooManyTxs 93052749919920) \<and>
   \<not> (93052749919920::uint64) < 93052749919920"
  using requiredKVStoreSuffixLen_succeeds_iff [of 50]
    requiredKVStoreSuffixLen_succeeds_iff [of 93052749919920]
  by (simp add: requiredKVStoreSuffixLen_chain)

text \<open>
  Claim C1. For a configuration whose maximum transaction count per endpoint is at
  least 1 and below the last entry of the table, the lookup returns a length \<open>l\<close>, and
  \<open>ValidateConfig\<close> accepts exactly when \<open>cfg.Size\<close> is at least
  \<open>KVStoreClientIDLen + l + 1 + kvstoreMinValueLen\<close> (the sum taken in the integers);
  otherwise it returns the error about the transaction size.
\<close>

theorem ValidateConfig_accepts_iff:
  assumes "1 \<le> MaxTxsPerEndpoint cfg" and "MaxTxsPerEndpoint cfg < 93052749919920"
  shows "\<exists>l. requiredKVStoreSuffixLen (MaxTxsPerEndpoint cfg) = Inr l \<and>
     (ValidateConfig MaxTxsPerEndpoint cfg = None \<longleftrightarrow>
        sint KVStoreClientIDLen + sint l + 1 + sint kvstoreMinValueLen \<le> sint (Size cfg)) \<and>
     (\<not> sint KVStoreClientIDLen + sint l + 1 + sint kvstoreMinValueLen \<le> sint (Size cfg) \<longrightarrow>
        ValidateConfig MaxTxsPerEndpoint cfg =
          Some (ErrTxSizeTooSmall (Size cfg) (KVStoreClientIDLen + l + 1 + kvstoreMinValueLen)))"
proof -
  from minTxSize_no_wrap [OF assms(2)] obtain l where
    l: "requiredKVStoreSuffixLen (MaxTxsPerEndpoint cfg) = Inr l"
    and s: "sint (KVStoreClientIDLen + l + 1 + kvstoreMinValueLen) =
           sint KVStoreClientIDLen + sint l + 1 + sint kvstoreMinValueLen"
    by blast
  have ge: "\<not> MaxTxsPerEndpoint cfg < 1" using assms(1) by (simp only: not_less)
  show ?thesis
    using l s ge by (auto simp: ValidateConfig_def Let_def)
qed

theorem ValidateConfig_accepts_iff_witness:
  "(1::uint64) \<le> Count testConfig \<and> Count testConfig < 93052749919920 \<and>
   requiredKVStoreSuffixLen (Count testConfig) = Inr 2 \<and>
   ValidateConfig Count testConfig = None \<and>
   ValidateConfig Count (testConfig\<lparr>Size := 8\<rparr>) = Some (ErrTxSizeTooSmall 8 9)"
  using ValidateConfig_accepts_iff [of Count testConfig]
    ValidateConfig_accepts_iff [of Count "testConfig\<lparr>Size := 8\<rparr>"]
  by (simp add: testConfig_def requiredKVStoreSuffixLen_chain KVStoreClientIDLen_def
      kvstoreMinValueLen_def)

text \<open>
  Claim C4. For a maximum transaction count at or beyond 93052749919920, the last entry
  of the table, \<open>requiredKVStoreSuffixLen\<close> returns an error and no length; hence
  \<open>ValidateConfig\<close> returns that error, and \<open>NewClient\<close> returns it without creating a
  client.
\<close>

theorem beyond_table_is_error:
  assumes "93052749919920 \<le> MaxTxsPerEndpoint cfg"
  shows "requiredKVStoreSuffixLen (MaxTxsPerEndpoint cfg) =
           Inl (ErrTooManyTxs (MaxTxsPerEndpoint cfg))
     \<and> ValidateConfig MaxTxsPerEndpoint cfg = Some (ErrTooManyTxs (MaxTxsPerEndpoint cfg))
     \<and> fst (NewClient randStr capFor MaxTxsPerEndpoint cfg w) =
           Inl (ErrTooManyTxs (MaxTxsPerEndpoint cfg))
     \<and> clients (snd (NewClient randStr capFor MaxTxsPerEndpoint cfg w)) = clients w"
proof -
  note e = requiredKVStoreSuffixLen_out_of_range [OF assms]
  have "(1::uint64) \<le> 93052749919920" by simp
  from this assms have "1 \<le> MaxTxsPerEndpoint cfg" by (rule order_trans)
  then have ge: "\<not> MaxTxsPerEndpoint cfg < 1" by (simp only: not_less)
  have v: "ValidateConfig MaxTxsPerEndpoint cfg = Some (ErrTooManyTxs (MaxTxsPerEndpoint cfg))"
    using e ge by (simp add: ValidateConfig_def Let_def)
  obtain s w1 where e1: "callRandStr randStr KVStoreClientIDLen w = (s, w1)"
    by (cases "callRandStr randStr KVStoreClientIDLen w")
  obtain b w2 where e2: "bytesOfString capFor s w1 = (b, w2)"
    by (cases "bytesOfString capFor s w1")
  have n: "NewClient randStr capFor MaxTxsPerEndpoint cfg w =
      (Inl (ErrTooManyTxs (MaxTxsPerEndpoint cfg)), w2)"
    by (simp add: NewClient_def e1 e2 e)
  have "clients w2 = clients w"
    using callRandStr_frame(2) [OF e1] bytesOfString_props(4) [OF e2] by simp
  with e v n show ?thesis by simp
qed

theorem beyond_table_is_error_witness:
  "(93052749919920::uint64) \<le> 93052749919920
   \<and> requiredKVStoreSuffixLen 93052749919920 = Inl (ErrTooManyTxs 93052749919920)
   \<and> ValidateConfig (\<lambda>c. 93052749919920) testConfig = Some (ErrTooManyTxs 93052749919920)
   \<and> fst (NewClient randStrA capEight (\<lambda>c. 93052749919920) testConfig emptyWorld) =
        Inl (ErrTooManyTxs 93052749919920)"
  using beyond_table_is_error [of "\<lambda>c. 93052749919920" testConfig randStrA capEight emptyWorld]
  by simp

text \<open>
  Claim C2, as the code has it. For every \<open>l\<close> from 1 through 15 the entry of the table
  at index \<open>l\<close> is the binomial coefficient 62 choose \<open>l\<close>, as the comment above the table
  says, not the power \<open>62 ^ l\<close>. For a count \<open>M\<close> below the last entry,
  \<open>requiredKVStoreSuffixLen M\<close> returns \<open>l + 1\<close> for the smallest index \<open>l\<close> whose entry
  exceeds \<open>M\<close>.
\<close>

theorem table_is_binomial_and_lookup_is_first_index_plus_one:
  "(\<forall>l\<in>{1..15}. unat (kvstoreMaxTxsByKeySuffixLen ! l) = 62 choose l)
   \<and> (M < 93052749919920 \<longrightarrow>
        (\<exists>l<length kvstoreMaxTxsByKeySuffixLen.
           requiredKVStoreSuffixLen M = Inr (word_of_nat l + 1)
           \<and> M < kvstoreMaxTxsByKeySuffixLen ! l
           \<and> (\<forall>j<l. \<not> M < kvstoreMaxTxsByKeySuffixLen ! j)))"
proof (intro conjI impI)
  show "\<forall>l\<in>{1..15}. unat (kvstoreMaxTxsByKeySuffixLen ! l) = 62 choose l"
    by (rule table_binomial)
  assume "M < 93052749919920"
  from requiredKVStoreSuffixLen_in_range [OF this] obtain n where
    "requiredKVStoreSuffixLen M = Inr n" by blast
  then have n: "suffixLenLoop M 0 kvstoreMaxTxsByKeySuffixLen = Inr n"
    by (simp add: requiredKVStoreSuffixLen_def)
  from suffixLenLoop_first [OF n] n
  show "\<exists>l<length kvstoreMaxTxsByKeySuffixLen.
           requiredKVStoreSuffixLen M = Inr (word_of_nat l + 1)
           \<and> M < kvstoreMaxTxsByKeySuffixLen ! l
           \<and> (\<forall>j<l. \<not> M < kvstoreMaxTxsByKeySuffixLen ! j)"
    by (auto simp: requiredKVStoreSuffixLen_def)
qed

theorem table_is_binomial_and_lookup_is_first_index_plus_one_witness:
  "(2::nat) \<in> {1..15} \<and> unat (kvstoreMaxTxsByKeySuffixLen ! 2) = 62 choose 2
   \<and> (100::uint64) < 93052749919920
   \<and> requiredKVStoreSuffixLen 100 = Inr (word_of_nat 2 + 1)
   \<and> (100::uint64) < kvstoreMaxTxsByKeySuffixLen ! 2
   \<and> \<not> (100::uint64) < kvstoreMaxTxsByKeySuffixLen ! 1"
proof -
  have "(2::nat) \<in> {1..15}" by simp
  with table_is_binomial_and_lookup_is_first_index_plus_one [of 100]
  have "unat (kvstoreMaxTxsByKeySuffixLen ! 2) = 62 choose 2" by blast
  then show ?thesis
    by (simp add: requiredKVStoreSuffixLen_chain kvstoreMaxTxsByKeySuffixLen_def)
qed

text \<open>
  The claim as it was stated fails at the suffix length 2: the entry is 1891 and not
  \<open>62 ^ 2 = 3844\<close>; and for the count 62, which the bound \<open>62 ^ 2\<close> of length 2 exceeds,
  the lookup returns 3.
\<close>

theorem table_entry_2_is_not_a_power:
  "unat (kvstoreMaxTxsByKeySuffixLen ! 2) \<noteq> 62 ^ 2
   \<and> requiredKVStoreSuffixLen 62 = Inr 3 \<and> (62::nat) < 62 ^ 2"
  by (simp add: kvstoreMaxTxsByKeySuffixLen_def requiredKVStoreSuffixLen_chain)

subsection \<open>The example parameters\<close>

lemma randStrA_length: "\<forall>n g. 1 \<le> n \<longrightarrow> int (length (fst (randStrA n g))) = n"
  by (simp add: randStrA_def)

lemma testConfig_accepted: "ValidateConfig Count testConfig = None"
  by (simp add: ValidateConfig_def testConfig_def requiredKVStoreSuffixLen_chain
      KVStoreClientIDLen_def kvstoreMinValueLen_def)

section \<open>The claims about the client\<close>

text \<open>
  Claim C5. For a configuration that \<open>ValidateConfig\<close> accepts, and a \<open>randStr\<close> that
  returns a string of the requested length when that is at least 1, \<open>NewClient\<close> returns a client, and every
  payload that successive calls of \<open>GenerateTx\<close> on it return is the client's key prefix
  of 5 bytes, a key suffix of the length \<open>l\<close> that the lookup computed, one \<open>=\<close> and a
  value of \<open>cfg.Size - (5 + l) - 1\<close> bytes, which is at least one byte; the length of the
  payload is exactly \<open>cfg.Size\<close>.
\<close>

theorem GenerateTx_payload_layout:
  assumes acc: "ValidateConfig MaxTxsPerEndpoint cfg = None"
    and rs: "\<forall>n g. 1 \<le> n \<longrightarrow> int (length (fst (randStr n g))) = n"
  shows "\<exists>p w1 c l. NewClient randStr capFor MaxTxsPerEndpoint cfg w = (Inr p, w1)
      \<and> clients w1 p = Some c
      \<and> requiredKVStoreSuffixLen (MaxTxsPerEndpoint cfg) = Inr l
      \<and> length (readSlice (keyPrefix c) w1) = 5
      \<and> (\<forall>n. \<exists>txs w2. GenerateTxs randStr capFor p n w1 = Some (txs, w2) \<and> length txs = n
           \<and> (\<forall>tx\<in>set txs. \<exists>suffix val.
                  tx = readSlice (keyPrefix c) w1 @ suffix @ ''='' @ val
                \<and> int (length suffix) = sint l
                \<and> int (length val) = sint (Size cfg) - (5 + sint l) - 1
                \<and> 1 \<le> length val
                \<and> int (length tx) = sint (Size cfg)))"
proof -
  from ValidateConfig_accepted [OF acc] obtain l where
    l: "requiredKVStoreSuffixLen (MaxTxsPerEndpoint cfg) = Inr l"
    and b: "2 \<le> sint l" "sint l \<le> 16" "sint l + 7 \<le> sint (Size cfg)"
    by blast
  have r5: "int (length (fst (randStr 5 (rng w)))) = 5" using rs by simp
  from NewClient_effect [where MaxTxsPerEndpoint = MaxTxsPerEndpoint and cfg = cfg
      and randStr = randStr and capFor = capFor and w = w, OF l r5] obtain p w1 c where
    n: "NewClient randStr capFor MaxTxsPerEndpoint cfg w = (Inr p, w1)"
    and c: "clients w1 p = Some c" and ok: "slice_ok (keyPrefix c) w1"
    and kp: "length (readSlice (keyPrefix c) w1) = 5"
    and ksl: "keySuffixLen c = l"
    and vl: "valueLen c = Size cfg - (word_of_nat 5 + l) - 1"
    by blast
  have svl: "sint (valueLen c) = sint (Size cfg) - sint l - 6"
    using valueLen_no_wrap [OF b] vl by simp
  have txs: "\<exists>txs w2. GenerateTxs randStr capFor p k w1 = Some (txs, w2) \<and> length txs = k
           \<and> (\<forall>tx\<in>set txs. \<exists>suffix val.
                  tx = readSlice (keyPrefix c) w1 @ suffix @ ''='' @ val
                \<and> int (length suffix) = sint l
                \<and> int (length val) = sint (Size cfg) - (5 + sint l) - 1
                \<and> 1 \<le> length val
                \<and> int (length tx) = sint (Size cfg))" for k
  proof -
    from GenerateTxs_effect [OF c ok, of randStr capFor k] obtain txs w2 where
      g: "GenerateTxs randStr capFor p k w1 = Some (txs, w2)" "length txs = k"
      and t: "\<forall>tx\<in>set txs. \<exists>g g'. tx = readSlice (keyPrefix c) w1
             @ fst (randStr (sint (keySuffixLen c)) g) @ ''=''
             @ fst (randStr (sint (valueLen c)) g')"
      by blast
    have "\<exists>suffix val. tx = readSlice (keyPrefix c) w1 @ suffix @ ''='' @ val
                \<and> int (length suffix) = sint l
                \<and> int (length val) = sint (Size cfg) - (5 + sint l) - 1
                \<and> 1 \<le> length val
                \<and> int (length tx) = sint (Size cfg)" if "tx \<in> set txs" for tx
    proof -
      from t that obtain g g' where
        tx: "tx = readSlice (keyPrefix c) w1 @ fst (randStr (sint l) g) @ ''=''
             @ fst (randStr (sint (valueLen c)) g')"
        using ksl by auto
      let ?suffix = "fst (randStr (sint l) g)"
      let ?val = "fst (randStr (sint (valueLen c)) g')"
      have ls: "int (length ?suffix) = sint l" using rs b(1) by simp
      have "1 \<le> sint (valueLen c)" using svl b by simp
      then have "int (length ?val) = sint (valueLen c)" using rs by simp
      then have lv: "int (length ?val) = sint (Size cfg) - (5 + sint l) - 1"
        using svl by simp
      then have lv1: "1 \<le> length ?val" using b by simp
      have "int (length tx) = sint (Size cfg)" using tx kp ls lv by simp
      with tx ls lv lv1 show ?thesis by blast
    qed
    with g show ?thesis by blast
  qed
  show ?thesis using n c l kp txs by blast
qed

theorem GenerateTx_payload_layout_witness:
  "ValidateConfig Count testConfig = None
   \<and> (\<exists>p w1 c. NewClient randStrA capEight Count testConfig emptyWorld = (Inr p, w1)
        \<and> clients w1 p = Some c
        \<and> (\<exists>txs w2. GenerateTxs randStrA capEight p 2 w1 = Some (txs, w2) \<and> length txs = 2
             \<and> (\<forall>tx\<in>set txs. \<exists>suffix val.
                    tx = readSlice (keyPrefix c) w1 @ suffix @ ''='' @ val
                  \<and> int (length suffix) = 2 \<and> int (length val) = 92
                  \<and> int (length tx) = 100)))"
proof -
  have l: "requiredKVStoreSuffixLen (Count testConfig) = Inr 2"
    by (simp add: testConfig_def requiredKVStoreSuffixLen_chain)
  have s: "sint (Size testConfig) = 100" by (simp add: testConfig_def)
  from GenerateTx_payload_layout [OF testConfig_accepted randStrA_length, of capEight emptyWorld]
  obtain p w1 c l' where
    n: "NewClient randStrA capEight Count testConfig emptyWorld = (Inr p, w1)"
    and c: "clients w1 p = Some c"
    and l': "requiredKVStoreSuffixLen (Count testConfig) = Inr l'"
    and t: "\<forall>n. \<exists>txs w2. GenerateTxs randStrA capEight p n w1 = Some (txs, w2) \<and> length txs = n
           \<and> (\<forall>tx\<in>set txs. \<exists>suffix val.
                  tx = readSlice (keyPrefix c) w1 @ suffix @ ''='' @ val
                \<and> int (length suffix) = sint l'
                \<and> int (length val) = sint (Size testConfig) - (5 + sint l') - 1
                \<and> 1 \<le> length val
                \<and> int (length tx) = sint (Size testConfig))"
    by blast
  from l l' have "l' = 2" by simp
  with t s have "\<exists>txs w2. GenerateTxs randStrA capEight p 2 w1 = Some (txs, w2) \<and> length txs = 2
             \<and> (\<forall>tx\<in>set txs. \<exists>suffix val.
                    tx = readSlice (keyPrefix c) w1 @ suffix @ ''='' @ val
                  \<and> int (length suffix) = 2 \<and> int (length val) = 92
                  \<and> int (length tx) = 100)"
    by (drule_tac x = 2 in spec) (simp, blast)
  with testConfig_accepted n c show ?thesis by blast
qed







section \<open>The claims about parseStats and the logger\<close>

lemma exampleRecords_parsed:
  "parseStats exampleParseInt exampleParseFloat exampleRecords =
     Inr \<lparr>TotalTxs = 50, TotalTimeSeconds = 5, TotalBytes = 5000, AvgTxRate = 0, AvgDataRate = 0\<rparr>"
  by (simp add: parseStats_def exampleRecords_def parseRecord_def exampleParseInt_def
      exampleParseFloat_def zeroStats_def)

text \<open>
  Claim C7. For two lists of at least 3 records whose non-blank rows are the same up
  to their order, the labels of the non-blank rows being pairwise distinct,
  \<open>parseStats\<close> returns the same statistics: blank rows are ignored, the order of the
  rows does not matter, and the result depends only on which labelled rows are present.
  In particular it returns the same statistics for every permutation of one list. The
  statistics are the first component of the returned pair, \<open>nil\<close> next to an error; the
  hypothesis of the claim that every non-blank row has at least 3 columns is not needed.
\<close>

theorem parseStats_depends_on_labelled_rows:
  assumes "3 \<le> length records" and "3 \<le> length records'"
    and "distinct (map hd (filter (\<lambda>row. row \<noteq> []) records))"
    and "mset (filter (\<lambda>row. row \<noteq> []) records') = mset (filter (\<lambda>row. row \<noteq> []) records)"
  shows "returnedStats (parseStats PI PF records') = returnedStats (parseStats PI PF records)"
proof -
  let ?nb = "filter (\<lambda>row. row \<noteq> [])"
  have d: "distinct (map hd (filter (\<lambda>row. row \<noteq> []) (?nb records)))"
    using assms(3) by simp
  have "returnedStats (parseStats PI PF records') =
        returnedStats (parseRecords PI PF (?nb records') zeroStats)"
    using assms(2) by (simp add: parseStats_def parseRecords_skip_blank)
  also have "\<dots> = returnedStats (parseRecords PI PF (?nb records) zeroStats)"
    by (rule parseRecords_permute [OF assms(4) d])
  also have "\<dots> = returnedStats (parseStats PI PF records)"
    using assms(1) by (simp add: parseStats_def parseRecords_skip_blank)
  finally show ?thesis .
qed

theorem parseStats_depends_on_labelled_rows_witness:
  "3 \<le> length exampleRecords \<and> 3 \<le> length exampleRecordsShuffled
   \<and> distinct (map hd (filter (\<lambda>row. row \<noteq> []) exampleRecords))
   \<and> mset (filter (\<lambda>row. row \<noteq> []) exampleRecordsShuffled) =
       mset (filter (\<lambda>row. row \<noteq> []) exampleRecords)
   \<and> returnedStats (parseStats exampleParseInt exampleParseFloat exampleRecordsShuffled) =
       Some \<lparr>TotalTxs = 50, TotalTimeSeconds = 5, TotalBytes = 5000, AvgTxRate = 0,
             AvgDataRate = 0\<rparr>"
proof -
  have 1: "3 \<le> length exampleRecords" by (simp add: exampleRecords_def)
  have 2: "3 \<le> length exampleRecordsShuffled" by (simp add: exampleRecordsShuffled_def)
  have 3: "distinct (map hd (filter (\<lambda>row. row \<noteq> []) exampleRecords))"
    by (simp add: exampleRecords_def)
  have 4: "mset (filter (\<lambda>row. row \<noteq> []) exampleRecordsShuffled) =
       mset (filter (\<lambda>row. row \<noteq> []) exampleRecords)"
    by (simp add: exampleRecords_def exampleRecordsShuffled_def)
  from parseStats_depends_on_labelled_rows [OF 1 2 3 4, of exampleParseInt exampleParseFloat]
  have "returnedStats (parseStats exampleParseInt exampleParseFloat exampleRecordsShuffled) =
       Some \<lparr>TotalTxs = 50, TotalTimeSeconds = 5, TotalBytes = 5000, AvgTxRate = 0,
             AvgDataRate = 0\<rparr>"
    by (simp add: exampleRecords_parsed returnedStats_simps)
  with 1 2 3 4 show ?thesis by blast
qed

text \<open>
  Claim C10. For every context string and every list of key/value arguments,
  \<open>NewLogrusLogger\<close> returns a logger whose fields map is empty: it passes \<open>kvpairs\<close>
  to \<open>serializeKVPairs\<close> as the single element of the argument list, and
  \<open>serializeKVPairs\<close> returns the empty map for every argument list of odd length.
\<close>

theorem NewLogrusLogger_drops_kvpairs:
  "(\<exists>lg. NewLogrusLogger ctx' kvpairs = Inr lg \<and> fields' lg = Map.empty
        \<and> ctx lg = ctx' \<and> pushedFieldSets lg = [])
   \<and> serializeKVPairs [ISlice kvpairs] = Inr Map.empty
   \<and> (odd (length xs) \<longrightarrow> serializeKVPairs xs = Inr Map.empty)"
  by (simp add: NewLogrusLogger_def serializeKVPairs_def odd_iff_mod_2_eq_one)

theorem NewLogrusLogger_drops_kvpairs_witness:
  "NewLogrusLogger ''worker'' [IString ''id'', IInt 1] =
     Inr \<lparr>logger = [''ctx'' \<mapsto> IString ''worker''], ctx = ''worker'', fields' = Map.empty,
          pushedFieldSets = []\<rparr>
   \<and> odd (length [ISlice [IString ''id'', IInt 1]])
   \<and> serializeKVPairs [ISlice [IString ''id'', IInt 1]] = Inr Map.empty
   \<and> serializeKVPairs [IString ''id'', IInt 1] = Inr [''id'' \<mapsto> IInt 1]"
proof -
  have o: "odd (length [ISlice [IString ''id'', IInt 1]])" by simp
  from NewLogrusLogger_drops_kvpairs [of "''worker''" "[IString ''id'', IInt 1]"
      "[ISlice [IString ''id'', IInt 1]]"] o
  have "serializeKVPairs [ISlice [IString ''id'', IInt 1]] = Inr Map.empty" by blast
  moreover have "serializeKVPairs [IString ''id'', IInt 1] = Inr [''id'' \<mapsto> IInt 1]"
    by (simp add: serializeKVPairs_def)
  moreover have "NewLogrusLogger ''worker'' [IString ''id'', IInt 1] =
     Inr \<lparr>logger = [''ctx'' \<mapsto> IString ''worker''], ctx = ''worker'', fields' = Map.empty,
          pushedFieldSets = []\<rparr>"
    by (simp add: NewLogrusLogger_def serializeKVPairs_def)
  ultimately show ?thesis using o by blast
qed

section \<open>The claim about the Coordinator's merge\<close>

subsection \<open>One report\<close>

lemma mergeReport_live_mono:
  "liveRequests co \<le> liveRequests (snd (mergeReport wk r co))
   \<and> liveBytes co \<le> liveBytes (snd (mergeReport wk r co))"
  by (simp add: mergeReport_def split: option.splits)

lemma mergeReport_Merged:
  assumes "fst (mergeReport wk r co) = Merged"
  shows "wk \<notin> failedWorkers co"
    and "\<exists>prev. recorded co wk = Some prev \<and> requests prev \<le> requests r \<and> bytes prev \<le> bytes r"
    and "recorded (snd (mergeReport wk r co)) wk = Some r"
    and "failedWorkers (snd (mergeReport wk r co)) = failedWorkers co"
  using assms by (auto simp: mergeReport_def split: option.splits if_splits)

lemma mergeReport_rejected:
  assumes "fst (mergeReport wk r co) = ProtocolViolationError"
  shows "wk \<in> failedWorkers (snd (mergeReport wk r co))"
    and "recorded (snd (mergeReport wk r co)) = recorded co"
    and "liveRequests (snd (mergeReport wk r co)) = liveRequests co"
    and "liveBytes (snd (mergeReport wk r co)) = liveBytes co"
  using assms by (auto simp: mergeReport_def split: option.splits if_splits)

lemma mergeReport_failed:
  "wk \<in> failedWorkers co \<Longrightarrow> mergeReport wk r co = (ProtocolViolationError, co)"
  by (simp add: mergeReport_def)

lemma mergeReport_lower:
  assumes "recorded co wk = Some prev" and "requests r < requests prev"
  shows "fst (mergeReport wk r co) = ProtocolViolationError"
  using assms by (simp add: mergeReport_def)

lemma merge_outcome_cases:
  "out = Merged \<or> out = ProtocolViolationError"
  by (cases out) simp_all

subsection \<open>A sequence of reports\<close>

lemma mergeReports_length: "length (fst (mergeReports wk rs co)) = length rs"
  by (induction rs arbitrary: co) (simp_all add: case_prod_beta)

lemma mergeReports_append:
  "mergeReports wk (xs @ ys) co =
     (fst (mergeReports wk xs co) @ fst (mergeReports wk ys (snd (mergeReports wk xs co))),
      snd (mergeReports wk ys (snd (mergeReports wk xs co))))"
  by (induction xs arbitrary: co) (simp_all add: case_prod_beta)

lemma mergeReports_single:
  "mergeReports wk [r] co = ([fst (mergeReport wk r co)], snd (mergeReport wk r co))"
  by (simp add: case_prod_beta)

lemma mergeReports_nth:
  assumes "i < length rs"
  shows "fst (mergeReports wk rs co) ! i =
         fst (mergeReport wk (rs ! i) (snd (mergeReports wk (take i rs) co)))"
proof -
  have rs: "rs = take i rs @ (rs ! i # drop (Suc i) rs)"
    using assms by (simp add: id_take_nth_drop [symmetric])
  have l: "length (fst (mergeReports wk (take i rs) co)) = i"
    using assms by (simp add: mergeReports_length)
  have "fst (mergeReports wk rs co) ! i =
        (fst (mergeReports wk (take i rs) co)
          @ fst (mergeReports wk (rs ! i # drop (Suc i) rs) (snd (mergeReports wk (take i rs) co)))) ! i"
    by (subst rs) (simp only: mergeReports_append fst_conv)
  also have "\<dots> = fst (mergeReports wk (rs ! i # drop (Suc i) rs)
                       (snd (mergeReports wk (take i rs) co))) ! 0"
    using l by (simp add: nth_append)
  also have "\<dots> = fst (mergeReport wk (rs ! i) (snd (mergeReports wk (take i rs) co)))"
    by (simp add: case_prod_beta)
  finally show ?thesis .
qed

lemma mergeReports_take_Suc:
  assumes "i < length rs"
  shows "snd (mergeReports wk (take (Suc i) rs) co) =
         snd (mergeReport wk (rs ! i) (snd (mergeReports wk (take i rs) co)))"
  using assms
  by (simp only: take_Suc_conv_app_nth mergeReports_append mergeReports_single snd_conv)

lemma mergeReports_failed:
  "wk \<in> failedWorkers co \<Longrightarrow>
     mergeReports wk rs co = (replicate (length rs) ProtocolViolationError, co)"
  by (induction rs) (simp_all add: mergeReport_failed)

lemma mergeReports_failed_mono:
  "wk \<in> failedWorkers co \<Longrightarrow> wk \<in> failedWorkers (snd (mergeReports wk rs co))"
  by (simp add: mergeReports_failed)

lemma mergeReports_live_mono:
  "liveRequests co \<le> liveRequests (snd (mergeReports wk rs co))
   \<and> liveBytes co \<le> liveBytes (snd (mergeReports wk rs co))"
proof (induction rs arbitrary: co)
  case Nil
  show ?case by simp
next
  case (Cons r rs)
  obtain out co' where m: "mergeReport wk r co = (out, co')" by (cases "mergeReport wk r co")
  from mergeReport_live_mono [of co wk r] m
  have 1: "liveRequests co \<le> liveRequests co'" "liveBytes co \<le> liveBytes co'" by simp_all
  from Cons.IH [of co']
  have 2: "liveRequests co' \<le> liveRequests (snd (mergeReports wk rs co'))"
    "liveBytes co' \<le> liveBytes (snd (mergeReports wk rs co'))" by simp_all
  have "snd (mergeReports wk (r # rs) co) = snd (mergeReports wk rs co')"
    using m by (simp add: case_prod_beta)
  with 1 2 show ?case by simp
qed

lemma mergeReports_live_mono_prefix:
  assumes "i \<le> j"
  shows "liveRequests (snd (mergeReports wk (take i rs) co))
           \<le> liveRequests (snd (mergeReports wk (take j rs) co))
       \<and> liveBytes (snd (mergeReports wk (take i rs) co))
           \<le> liveBytes (snd (mergeReports wk (take j rs) co))"
proof -
  have "take j rs = take i rs @ drop i (take j rs)"
    using assms by (metis append_take_drop_id min.absorb2 take_take min.commute)
  then have "snd (mergeReports wk (take j rs) co) =
      snd (mergeReports wk (drop i (take j rs)) (snd (mergeReports wk (take i rs) co)))"
    by (metis mergeReports_append snd_conv)
  then show ?thesis
    using mergeReports_live_mono [of "snd (mergeReports wk (take i rs) co)" wk "drop i (take j rs)"]
    by simp
qed

text \<open>After a rejected report every later report of the worker is rejected.\<close>

lemma mergeReports_rejected_onwards:
  assumes "i \<le> j" and "j < length rs"
    and "fst (mergeReports wk rs co) ! i = ProtocolViolationError"
  shows "fst (mergeReports wk rs co) ! j = ProtocolViolationError"
proof (cases "i = j")
  case True
  with assms(3) show ?thesis by simp
next
  case False
  with assms(1) have ij: "Suc i \<le> j" by simp
  have i: "i < length rs" using assms(1,2) by simp
  let ?ci = "snd (mergeReports wk (take i rs) co)"
  let ?cs = "snd (mergeReports wk (take (Suc i) rs) co)"
  have "fst (mergeReport wk (rs ! i) ?ci) = ProtocolViolationError"
    using assms(3) mergeReports_nth [OF i, of wk co] by simp
  then have f: "wk \<in> failedWorkers ?cs"
    using mergeReport_rejected(1) mergeReports_take_Suc [OF i, of wk co] by simp
  have "take j rs = take (Suc i) rs @ drop (Suc i) (take j rs)"
    using ij by (metis append_take_drop_id min.absorb2 take_take min.commute)
  then have "snd (mergeReports wk (take j rs) co) =
      snd (mergeReports wk (drop (Suc i) (take j rs)) ?cs)"
    by (metis mergeReports_append snd_conv)
  with f have "wk \<in> failedWorkers (snd (mergeReports wk (take j rs) co))"
    by (simp add: mergeReports_failed)
  then show ?thesis
    using mergeReports_nth [OF assms(2), of wk co] by (simp add: mergeReport_failed)
qed

text \<open>A report below its predecessor in the sequence is rejected.\<close>

lemma mergeReports_lower_than_predecessor:
  assumes s: "Suc i < length rs" and lt: "requests (rs ! Suc i) < requests (rs ! i)"
  shows "fst (mergeReports wk rs co) ! Suc i = ProtocolViolationError"
proof -
  have i: "i < length rs" using s by simp
  let ?ci = "snd (mergeReports wk (take i rs) co)"
  let ?cs = "snd (mergeReports wk (take (Suc i) rs) co)"
  have cs: "?cs = snd (mergeReport wk (rs ! i) ?ci)"
    by (rule mergeReports_take_Suc [OF i])
  have out: "fst (mergeReports wk rs co) ! Suc i = fst (mergeReport wk (rs ! Suc i) ?cs)"
    by (rule mergeReports_nth [OF s])
  from merge_outcome_cases [of "fst (mergeReport wk (rs ! i) ?ci)"] show ?thesis
  proof
    assume m: "fst (mergeReport wk (rs ! i) ?ci) = Merged"
    from mergeReport_Merged(3) [OF m] cs have "recorded ?cs wk = Some (rs ! i)" by simp
    from mergeReport_lower [OF this lt] out show ?thesis by simp
  next
    assume m: "fst (mergeReport wk (rs ! i) ?ci) = ProtocolViolationError"
    from mergeReport_rejected(1) [OF m] cs have "wk \<in> failedWorkers ?cs" by simp
    with out show ?thesis by (simp add: mergeReport_failed)
  qed
qed

lemma exampleReports_merged:
  "mergeReports 1 exampleReports exampleCoordinator =
     ([Merged, ProtocolViolationError, ProtocolViolationError],
      exampleCoordinator
        \<lparr>recorded := (recorded exampleCoordinator)
            (1 \<mapsto> \<lparr>requests = 20, bytes = 2000, completed = False\<rparr>),
         failedWorkers := {1}, liveRequests := 20, liveBytes := 2000\<rparr>)"
  by (simp add: exampleReports_def mergeReport_def exampleCoordinator_def)

text \<open>
  Claim C3. For every sequence of reports of one worker that the merge of the Running
  state takes in order, in the merge that the specification gives: a report is merged
  only when its request and byte counters are at least the counters recorded for the
  worker when the report arrives; a report whose request count is below the one of its
  predecessor in the sequence, or for the first report below the recorded one, is
  rejected as a \<open>ProtocolViolationError\<close>; after a rejected report the worker is among
  the failed ones, every later report of it is rejected too, and the live counters stay
  what they were before the rejected report; and the live aggregate counters of requests
  and bytes never decrease along the sequence.
\<close>

theorem monotonic_merge:
  "(\<forall>i<length rs. fst (mergeReports wk rs co) ! i = Merged \<longrightarrow>
      (\<exists>prev. recorded (snd (mergeReports wk (take i rs) co)) wk = Some prev
         \<and> requests prev \<le> requests (rs ! i) \<and> bytes prev \<le> bytes (rs ! i)))
   \<and> (\<forall>i. Suc i < length rs \<and> requests (rs ! Suc i) < requests (rs ! i) \<longrightarrow>
        fst (mergeReports wk rs co) ! Suc i = ProtocolViolationError)
   \<and> (\<forall>prev. rs \<noteq> [] \<and> recorded co wk = Some prev \<and> requests (rs ! 0) < requests prev \<longrightarrow>
        fst (mergeReports wk rs co) ! 0 = ProtocolViolationError)
   \<and> (\<forall>i<length rs. fst (mergeReports wk rs co) ! i = ProtocolViolationError \<longrightarrow>
        wk \<in> failedWorkers (snd (mergeReports wk rs co))
        \<and> (\<forall>j. i \<le> j \<and> j < length rs \<longrightarrow>
              fst (mergeReports wk rs co) ! j = ProtocolViolationError)
        \<and> liveRequests (snd (mergeReports wk rs co)) =
            liveRequests (snd (mergeReports wk (take i rs) co))
        \<and> liveBytes (snd (mergeReports wk rs co)) =
            liveBytes (snd (mergeReports wk (take i rs) co)))
   \<and> (\<forall>i j. i \<le> j \<longrightarrow>
        liveRequests (snd (mergeReports wk (take i rs) co))
          \<le> liveRequests (snd (mergeReports wk (take j rs) co))
        \<and> liveBytes (snd (mergeReports wk (take i rs) co))
          \<le> liveBytes (snd (mergeReports wk (take j rs) co)))"
proof (intro conjI allI impI)
  fix i assume i: "i < length rs" and m: "fst (mergeReports wk rs co) ! i = Merged"
  from m mergeReports_nth [OF i, of wk co]
  have "fst (mergeReport wk (rs ! i) (snd (mergeReports wk (take i rs) co))) = Merged" by simp
  from mergeReport_Merged(2) [OF this]
  show "\<exists>prev. recorded (snd (mergeReports wk (take i rs) co)) wk = Some prev
         \<and> requests prev \<le> requests (rs ! i) \<and> bytes prev \<le> bytes (rs ! i)" .
next
  fix i assume "Suc i < length rs \<and> requests (rs ! Suc i) < requests (rs ! i)"
  then show "fst (mergeReports wk rs co) ! Suc i = ProtocolViolationError"
    by (simp add: mergeReports_lower_than_predecessor)
next
  fix prev assume a: "rs \<noteq> [] \<and> recorded co wk = Some prev \<and> requests (rs ! 0) < requests prev"
  then have 0: "0 < length rs" by simp
  from a have "fst (mergeReport wk (rs ! 0) co) = ProtocolViolationError"
    by (simp add: mergeReport_lower)
  with mergeReports_nth [OF 0, of wk co]
  show "fst (mergeReports wk rs co) ! 0 = ProtocolViolationError" by simp
next
  fix i assume i: "i < length rs"
    and r: "fst (mergeReports wk rs co) ! i = ProtocolViolationError"
  let ?ci = "snd (mergeReports wk (take i rs) co)"
  let ?cs = "snd (mergeReports wk (take (Suc i) rs) co)"
  have ri: "fst (mergeReport wk (rs ! i) ?ci) = ProtocolViolationError"
    using r mergeReports_nth [OF i, of wk co] by simp
  have cs: "?cs = snd (mergeReport wk (rs ! i) ?ci)"
    by (rule mergeReports_take_Suc [OF i])
  have f: "wk \<in> failedWorkers ?cs"
    using mergeReport_rejected(1) [OF ri] cs by simp
  have "rs = take (Suc i) rs @ drop (Suc i) rs" by simp
  then have "snd (mergeReports wk rs co) = snd (mergeReports wk (drop (Suc i) rs) ?cs)"
    by (metis mergeReports_append snd_conv)
  with f have fin: "snd (mergeReports wk rs co) = ?cs"
    by (simp add: mergeReports_failed)
  show "wk \<in> failedWorkers (snd (mergeReports wk rs co))"
    using f fin by simp
  show "liveRequests (snd (mergeReports wk rs co)) = liveRequests ?ci"
    using fin cs mergeReport_rejected(3) [OF ri] by simp
  show "liveBytes (snd (mergeReports wk rs co)) = liveBytes ?ci"
    using fin cs mergeReport_rejected(4) [OF ri] by simp
  fix j assume "i \<le> j \<and> j < length rs"
  then show "fst (mergeReports wk rs co) ! j = ProtocolViolationError"
    using mergeReports_rejected_onwards [of i j rs wk co] r by simp
next
  fix i j :: nat assume ij: "i \<le> j"
  show "liveRequests (snd (mergeReports wk (take i rs) co))
          \<le> liveRequests (snd (mergeReports wk (take j rs) co))"
    using mergeReports_live_mono_prefix [OF ij, of wk rs co] by simp
  show "liveBytes (snd (mergeReports wk (take i rs) co))
          \<le> liveBytes (snd (mergeReports wk (take j rs) co))"
    using mergeReports_live_mono_prefix [OF ij, of wk rs co] by simp
qed

theorem monotonic_merge_witness:
  "fst (mergeReports 1 exampleReports exampleCoordinator) =
     [Merged, ProtocolViolationError, ProtocolViolationError]
   \<and> requests (exampleReports ! 1) < requests (exampleReports ! 0)
   \<and> fst (mergeReports 1 exampleReports exampleCoordinator) ! 1 = ProtocolViolationError
   \<and> 1 \<in> failedWorkers (snd (mergeReports 1 exampleReports exampleCoordinator))
   \<and> liveRequests (snd (mergeReports 1 exampleReports exampleCoordinator)) = 20
   \<and> liveBytes (snd (mergeReports 1 exampleReports exampleCoordinator)) = 2000
   \<and> fst (mergeReports 1
        [\<lparr>requests = 25, bytes = 500, completed = False\<rparr>,
         \<lparr>requests = 22, bytes = 2000, completed = False\<rparr>] exampleCoordinator) =
       [ProtocolViolationError, ProtocolViolationError]"
proof -
  have l: "Suc 0 < length exampleReports" by (simp add: exampleReports_def)
  have lt: "requests (exampleReports ! 1) < requests (exampleReports ! 0)"
    by (simp add: exampleReports_def)
  from monotonic_merge [of exampleReports 1 exampleCoordinator] l lt
  have r: "fst (mergeReports 1 exampleReports exampleCoordinator) ! 1 = ProtocolViolationError"
    by (metis One_nat_def)
  have o: "fst (mergeReports 1
        [\<lparr>requests = 25, bytes = 500, completed = False\<rparr>,
         \<lparr>requests = 22, bytes = 2000, completed = False\<rparr>] exampleCoordinator) =
       [ProtocolViolationError, ProtocolViolationError]"
    by (simp add: mergeReport_def exampleCoordinator_def)
  have e: "fst (mergeReports 1 exampleReports exampleCoordinator) =
       [Merged, ProtocolViolationError, ProtocolViolationError]"
    "1 \<in> failedWorkers (snd (mergeReports 1 exampleReports exampleCoordinator))"
    "liveRequests (snd (mergeReports 1 exampleReports exampleCoordinator)) = 20"
    "liveBytes (snd (mergeReports 1 exampleReports exampleCoordinator)) = 2000"
    by (simp_all only: exampleReports_merged fst_conv snd_conv) simp_all
  from r lt o e show ?thesis by blast
qed

end
